theory Spec2Isabelle
  imports Main "HOL-Library.Multiset"
begin

section \<open>Python strings and text files\<close>

text \<open>
  Strings are lists of characters. The characters of the model are the 256 values of
  \<^typ>\<open>char\<close>, read as the code points 0 to 255; the run format only ever writes decimal
  digits, the minus sign, the space, the newline and the characters of the values.
\<close>

definition newline :: char where
  "newline = CHR 0x0A"

definition carriage_return :: char where
  "carriage_return = CHR 0x0D"

definition space :: char where
  "space = CHR 0x20"

text \<open>\<^verbatim>\<open>str.isspace\<close> on the code points below 256.\<close>

definition isspace :: "char \<Rightarrow> bool" where
  "isspace c = (of_char c \<in> set [9, 10, 11, 12, 13, 28, 29, 30, 31, 32, 133, 160 :: nat])"

text \<open>
  \<^verbatim>\<open>s.split()\<close> with no argument: the maximal runs of non-whitespace characters.
  The first argument is the word read so far.
\<close>

fun split_from :: "string \<Rightarrow> string \<Rightarrow> string list" where
  "split_from w [] = (if w = [] then [] else [w])"
| "split_from w (c # cs) =
     (if isspace c then (if w = [] then split_from [] cs else w # split_from [] cs)
      else split_from (w @ [c]) cs)"

definition split :: "string \<Rightarrow> string list" where
  "split s = split_from [] s"

text \<open>\<^verbatim>\<open>" ".join(xs)\<close>\<close>

fun join :: "string list \<Rightarrow> string" where
  "join [] = []"
| "join [x] = x"
| "join (x # y # ys) = x @ space # join (y # ys)"

subsection \<open>Decimal integers\<close>

definition digit_char :: "nat \<Rightarrow> char" where
  "digit_char d = char_of (48 + d)"

definition isdigit :: "char \<Rightarrow> bool" where
  "isdigit c = (48 \<le> (of_char c :: nat) \<and> (of_char c :: nat) \<le> 57)"

definition digit_val :: "char \<Rightarrow> nat" where
  "digit_val c = of_char c - 48"

function str_nat :: "nat \<Rightarrow> string" where
  "str_nat n = (if n < 10 then [digit_char n] else str_nat (n div 10) @ [digit_char (n mod 10)])"
  by pat_completeness auto
termination
  by (relation "measure id") auto

declare str_nat.simps [simp del]

text \<open>\<^verbatim>\<open>str(i)\<close> and \<^verbatim>\<open>"{}".format(i)\<close> for an integer.\<close>

definition str_int :: "int \<Rightarrow> string" where
  "str_int i = (if i < 0 then CHR ''-'' # str_nat (nat (- i)) else str_nat (nat i))"

text \<open>
  \<^verbatim>\<open>int(s)\<close>: surrounding whitespace is stripped, a sign is optional, then decimal digits,
  where single underscores may separate digits. \<open>None\<close> stands for \<^verbatim>\<open>ValueError\<close>.
\<close>

fun py_digits :: "string \<Rightarrow> nat \<Rightarrow> nat option" where
  "py_digits [] acc = Some acc"
| "py_digits (c # cs) acc =
     (if isdigit c then py_digits cs (10 * acc + digit_val c)
      else if c = CHR ''_'' then
        (case cs of [] \<Rightarrow> None | d # ds \<Rightarrow> if isdigit d then py_digits cs acc else None)
      else None)"

definition parse_nat :: "string \<Rightarrow> nat option" where
  "parse_nat s = (case s of [] \<Rightarrow> None
     | c # cs \<Rightarrow> if isdigit c then py_digits cs (digit_val c) else None)"

definition strip :: "string \<Rightarrow> string" where
  "strip s = rev (dropWhile isspace (rev (dropWhile isspace s)))"

definition int_of_str :: "string \<Rightarrow> int option" where
  "int_of_str s = (case strip s of [] \<Rightarrow> None
     | c # cs \<Rightarrow>
         if c = CHR ''-'' then map_option (\<lambda>n. - int n) (parse_nat cs)
         else if c = CHR ''+'' then map_option int (parse_nat cs)
         else map_option int (parse_nat (c # cs)))"

subsection \<open>Reading a text file line by line\<close>

text \<open>
  A file opened for reading in text mode translates \<^verbatim>\<open>\r\n\<close> and \<^verbatim>\<open>\r\<close> to \<^verbatim>\<open>\n\<close>.
  An open file is modelled by the text that is still to be read: nothing in the program
  writes to a file while it is open for reading.
\<close>

fun universal_newlines :: "string \<Rightarrow> string" where
  "universal_newlines [] = []"
| "universal_newlines [c] = (if c = carriage_return then [newline] else [c])"
| "universal_newlines (c # d # s) =
     (if c = carriage_return then
        (if d = newline then newline # universal_newlines s
         else newline # universal_newlines (d # s))
      else c # universal_newlines (d # s))"

text \<open>
  \<^verbatim>\<open>next(f)\<close> on a file: the next line with its newline, and the rest of the file;
  \<open>None\<close> stands for \<^verbatim>\<open>StopIteration\<close> at the end of the file.
\<close>

definition readline :: "string \<Rightarrow> (string \<times> string) option" where
  "readline s = (if s = [] then None
     else (case dropWhile (\<lambda>c. c \<noteq> newline) s of
             [] \<Rightarrow> Some (s, [])
           | c # r \<Rightarrow> Some (takeWhile (\<lambda>c. c \<noteq> newline) s @ [newline], r)))"

section \<open>The file system\<close>

text \<open>
  Paths are compared as strings. A directory \<open>d\<close> contains every path that starts
  with \<open>d\<close> and a slash.
\<close>

record fsys =
  dirs :: "string set"
  files :: "string \<rightharpoonup> string"

datatype error = StopIteration | ValueError | TypeError | FileNotFoundError | FileExistsError
  | ZeroDivisionError | KeyError

definition in_dir :: "string \<Rightarrow> string \<Rightarrow> bool" where
  "in_dir d p = (take (Suc (length d)) p = d @ ''/'')"

definition isdir :: "fsys \<Rightarrow> string \<Rightarrow> bool" where
  "isdir fs d = (d \<in> dirs fs)"

text \<open>\<^verbatim>\<open>os.mkdir(d)\<close>: the parent directory of \<open>d\<close> is taken to exist.\<close>

definition mkdir :: "string \<Rightarrow> fsys \<Rightarrow> error + fsys" where
  "mkdir d fs = (if d \<in> dirs fs \<or> files fs d \<noteq> None then Inl FileExistsError
     else Inr (fs\<lparr>dirs := insert d (dirs fs)\<rparr>))"

text \<open>\<^verbatim>\<open>shutil.rmtree(d)\<close> removes the directory and everything below it.\<close>

definition rmtree :: "string \<Rightarrow> fsys \<Rightarrow> error + fsys" where
  "rmtree d fs = (if d \<in> dirs fs
     then Inr \<lparr>dirs = Set.filter (\<lambda>x. x \<noteq> d \<and> \<not> in_dir d x) (dirs fs),
              files = (\<lambda>p. if in_dir d p then None else files fs p)\<rparr>
     else Inl FileNotFoundError)"

definition os_remove :: "string \<Rightarrow> fsys \<Rightarrow> error + fsys" where
  "os_remove p fs = (case files fs p of None \<Rightarrow> Inl FileNotFoundError
     | Some c \<Rightarrow> Inr (fs\<lparr>files := (files fs)(p := None)\<rparr>))"

text \<open>\<^verbatim>\<open>shutil.move(src, dst)\<close> between two file paths: a rename that replaces \<open>dst\<close>.\<close>

definition move :: "string \<Rightarrow> string \<Rightarrow> fsys \<Rightarrow> error + fsys" where
  "move src dst fs = (case files fs src of None \<Rightarrow> Inl FileNotFoundError
     | Some c \<Rightarrow> Inr (fs\<lparr>files := ((files fs)(src := None))(dst \<mapsto> c)\<rparr>))"

text \<open>\<^verbatim>\<open>open(p)\<close> for reading.\<close>

definition open_read :: "fsys \<Rightarrow> string \<Rightarrow> error + string" where
  "open_read fs p = (case files fs p of None \<Rightarrow> Inl FileNotFoundError
     | Some c \<Rightarrow> Inr (universal_newlines c))"

section \<open>The run format\<close>

type_synonym entry = "int \<times> string list"

text \<open>The two lines that \<^verbatim>\<open>write_key_values_to_file\<close> writes for one entry.\<close>

definition entry_text :: "entry \<Rightarrow> string" where
  "entry_text e = str_int (fst e) @ [newline] @ join (snd e) @ [newline]"

definition run_text :: "entry list \<Rightarrow> string" where
  "run_text kvs = concat (map entry_text kvs)"

definition write_key_values_to_file :: "entry list \<Rightarrow> string \<Rightarrow> fsys \<Rightarrow> fsys" where
  "write_key_values_to_file key_values_list filename fs =
     fs\<lparr>files := (files fs)(filename \<mapsto> run_text key_values_list)\<rparr>"

section \<open>MergeFileIterator\<close>

text \<open>
  The heap holds one triple (key, index, file) for every file that is not exhausted.
  \<^verbatim>\<open>heapq\<close> is modelled by its contract: the heap is kept as a list in ascending order of
  (key, index), so that its first element is the least one and \<^verbatim>\<open>heappop\<close> removes it.
  The index is different for every file, so the file object itself is never compared.
\<close>

type_synonym heap_item = "int \<times> nat \<times> string"

fun item_less :: "heap_item \<Rightarrow> heap_item \<Rightarrow> bool" where
  "item_less (k, i, f) (k', i', f') = (k < k' \<or> (k = k' \<and> i < i'))"

fun heappush :: "heap_item list \<Rightarrow> heap_item \<Rightarrow> heap_item list" where
  "heappush [] x = [x]"
| "heappush (y # ys) x = (if item_less x y then x # y # ys else y # heappush ys x)"

text \<open>The loop of the constructor: read the first key of every file.\<close>

fun push_first_keys :: "nat \<Rightarrow> string list \<Rightarrow> heap_item list \<Rightarrow> error + heap_item list" where
  "push_first_keys index [] heap = Inr heap"
| "push_first_keys index (f # fs) heap =
     (case readline f of None \<Rightarrow> Inl StopIteration
      | Some (line, f') \<Rightarrow>
          (case int_of_str line of None \<Rightarrow> Inl ValueError
           | Some key \<Rightarrow> push_first_keys (Suc index) fs (heappush heap (key, index, f'))))"

fun open_all :: "fsys \<Rightarrow> string list \<Rightarrow> error + string list" where
  "open_all fs [] = Inr []"
| "open_all fs (p # ps) =
     (case open_read fs p of Inl e \<Rightarrow> Inl e
      | Inr f \<Rightarrow> (case open_all fs ps of Inl e \<Rightarrow> Inl e | Inr fs' \<Rightarrow> Inr (f # fs')))"

definition MergeFileIterator :: "fsys \<Rightarrow> string list \<Rightarrow> error + heap_item list" where
  "MergeFileIterator fs filelist =
     (case open_all fs filelist of Inl e \<Rightarrow> Inl e | Inr fs' \<Rightarrow> push_first_keys 0 fs' [])"

definition heap_size :: "heap_item list \<Rightarrow> nat" where
  "heap_size heap = sum_list (map (\<lambda>(k, i, f). Suc (length f)) heap)"

text \<open>
  The inner loop of \<^verbatim>\<open>__next__\<close>: pop every entry of the current key, read its values
  line, and push the next key of that file, if it has one.
\<close>

function pop_values :: "int \<Rightarrow> heap_item list \<Rightarrow> string list \<Rightarrow> error + (heap_item list \<times> string list)" where
  "pop_values current_key [] values_list = Inr ([], values_list)"
| "pop_values current_key ((key, index, f) # heap) values_list =
     (if key \<noteq> current_key then Inr ((key, index, f) # heap, values_list)
      else (case readline f of None \<Rightarrow> Inl StopIteration
        | Some (line, f1) \<Rightarrow>
            (case readline f1 of
               None \<Rightarrow> pop_values current_key heap (values_list @ split line)
             | Some (line2, f2) \<Rightarrow>
                 (case int_of_str line2 of None \<Rightarrow> Inl ValueError
                  | Some key2 \<Rightarrow>
                      pop_values current_key (heappush heap (key2, index, f2))
                        (values_list @ split line)))))"
  by pat_completeness auto

lemma readline_shorter: "readline s = Some (l, r) \<Longrightarrow> length r < length s"
proof -
  assume a: "readline s = Some (l, r)"
  have "length (dropWhile (\<lambda>c. c \<noteq> newline) s) \<le> length s"
    by (rule length_dropWhile_le)
  with a show ?thesis
    by (auto simp: readline_def split: if_splits list.splits)
qed

lemma heap_size_heappush: "heap_size (heappush h x) = heap_size [x] + heap_size h"
  by (induction h) (auto simp: heap_size_def)

termination pop_values
proof (relation "measure (\<lambda>(k, h, vs). heap_size h)")
  show "wf (measure (\<lambda>(k, h, vs). heap_size h))" by simp
next
  fix current_key key :: int and index :: nat and f heap values_list x2 x y
  assume "readline f = Some x2" "(x, y) = x2" "readline y = None"
  then show "((current_key, heap, values_list @ split x),
              current_key, (key, index, f) # heap, values_list) \<in> measure (\<lambda>(k, h, vs). heap_size h)"
    by (simp add: heap_size_def)
next
  fix current_key key :: int and index :: nat and f heap values_list x2 x y x2a xa ya x2b
  assume "readline f = Some x2" "(x, y) = x2" "readline y = Some x2a" "(xa, ya) = x2a"
  then have "length ya < length f"
    using readline_shorter[of f x y] readline_shorter[of y xa ya] by simp
  then show "((current_key, heappush heap (x2b, index, ya), values_list @ split x),
              current_key, (key, index, f) # heap, values_list) \<in> measure (\<lambda>(k, h, vs). heap_size h)"
    by (simp add: heap_size_heappush) (simp add: heap_size_def)
qed

definition hasNext_merge :: "heap_item list \<Rightarrow> bool" where
  "hasNext_merge heap = (heap \<noteq> [])"

definition merge_next :: "heap_item list \<Rightarrow> error + (entry \<times> heap_item list)" where
  "merge_next heap = (case heap of [] \<Rightarrow> Inl StopIteration
     | (current_key, index, f) # rest \<Rightarrow>
         (case pop_values current_key heap [] of Inl e \<Rightarrow> Inl e
          | Inr (heap', values_list) \<Rightarrow> Inr ((current_key, values_list), heap')))"

section \<open>Well-formed runs\<close>

text \<open>A value that the run format can hold: not empty and free of whitespace.\<close>

definition token :: "string \<Rightarrow> bool" where
  "token v = (v \<noteq> [] \<and> (\<forall>c \<in> set v. \<not> isspace c))"

definition wf_run :: "entry list \<Rightarrow> bool" where
  "wf_run r = (sorted_wrt (<) (map fst r) \<and> (\<forall>e \<in> set r. \<forall>v \<in> set (snd e). token v))"

text \<open>What is left to read of a file once the key of the first entry of \<open>r\<close> has been read.\<close>

definition pending :: "entry list \<Rightarrow> string" where
  "pending r = (case r of [] \<Rightarrow> [] | e # rest \<Rightarrow> join (snd e) @ newline # run_text rest)"

definition item :: "nat \<Rightarrow> entry list \<Rightarrow> heap_item" where
  "item i r = (fst (hd r), i, pending r)"

subsection \<open>Strings: splitting, joining, decimal numbers\<close>



lemma isspace_newline [simp]: "isspace newline" by (simp add: isspace_def newline_def)
lemma isspace_space [simp]: "isspace space" by (simp add: isspace_def space_def)
lemma isspace_cr [simp]: "isspace carriage_return" by (simp add: isspace_def carriage_return_def)

lemma split_from_word: "\<forall>c \<in> set v. \<not> isspace c \<Longrightarrow> split_from w (v @ r) = split_from (w @ v) r"
  by (induction v arbitrary: w) auto

lemma split_join: "\<forall>v \<in> set vs. token v \<Longrightarrow> split_from [] (join vs @ [newline]) = vs"
proof (induction vs rule: join.induct)
  case 1 then show ?case by simp
next
  case (2 x) then show ?case by (simp add: split_from_word token_def)
next
  case (3 x y ys)
  then show ?case by (simp add: split_from_word token_def)
qed

lemma isdigit_digit_char: "d < 10 \<Longrightarrow> isdigit (digit_char d)"
  by (simp add: isdigit_def digit_char_def)
lemma digit_val_digit_char: "d < 10 \<Longrightarrow> digit_val (digit_char d) = d"
  by (simp add: digit_val_def digit_char_def)

lemma str_nat_digits: "c \<in> set (str_nat n) \<Longrightarrow> isdigit c"
proof (induction n rule: str_nat.induct)
  case (1 n)
  from 1(2) have "c \<in> set (if n < 10 then [digit_char n] else str_nat (n div 10) @ [digit_char (n mod 10)])"
    by (subst (asm) str_nat.simps) simp
  with 1(1) show ?case by (auto simp: isdigit_digit_char split: if_splits)
qed

lemma str_nat_nonempty: "str_nat n \<noteq> []"
  by (subst str_nat.simps) simp

lemma py_digits_all: "\<forall>c \<in> set s. isdigit c \<Longrightarrow> py_digits s acc = Some (foldl (\<lambda>a c. 10 * a + digit_val c) acc s)"
  by (induction s arbitrary: acc) auto

lemma parse_nat_all: "s \<noteq> [] \<Longrightarrow> \<forall>c \<in> set s. isdigit c \<Longrightarrow> parse_nat s = Some (foldl (\<lambda>a c. 10 * a + digit_val c) 0 s)"
  by (cases s) (auto simp: parse_nat_def py_digits_all)

lemma foldl_str_nat: "foldl (\<lambda>a c. 10 * a + digit_val c) 0 (str_nat n) = n"
proof (induction n rule: str_nat.induct)
  case (1 n)
  show ?case by (subst str_nat.simps) (use 1 in \<open>auto simp: digit_val_digit_char\<close>)
qed

lemma parse_nat_str_nat: "parse_nat (str_nat n) = Some n"
  by (simp add: parse_nat_all str_nat_nonempty str_nat_digits foldl_str_nat)

lemma isdigit_not_space: "isdigit c \<Longrightarrow> \<not> isspace c"
  by (auto simp: isdigit_def isspace_def)

lemma strip_core: "s \<noteq> [] \<Longrightarrow> \<forall>c \<in> set s. \<not> isspace c \<Longrightarrow> strip (s @ [newline]) = s"
proof -
  assume ne: "s \<noteq> []" and ns: "\<forall>c \<in> set s. \<not> isspace c"
  have a: "dropWhile isspace (s @ [newline]) = s @ [newline]"
    using ne ns by (cases s) auto
  have "rev s \<noteq> []" using ne by simp
  then obtain x xs where r: "rev s = x # xs" by (cases "rev s") auto
  then have "x \<in> set s" by (metis list.set_intros(1) set_rev)
  with ns r have b: "dropWhile isspace (rev s) = rev s" by simp
  show ?thesis by (simp add: strip_def a b)
qed

lemma int_of_str_str_int: "int_of_str (str_int k @ [newline]) = Some k"
proof -
  have d: "\<forall>c \<in> set (str_nat n). \<not> isspace c" for n
    using str_nat_digits isdigit_not_space by blast
  have m: "\<not> isspace CHR ''-''" by (simp add: isspace_def)
  have nd: "hd (str_nat n) \<noteq> CHR ''-'' \<and> hd (str_nat n) \<noteq> CHR ''+''" for n
    using str_nat_digits[of "hd (str_nat n)" n] str_nat_nonempty[of n]
    by (auto simp: isdigit_def)
  show ?thesis
  proof (cases "k < 0")
    case True
    then have "strip (str_int k @ [newline]) = CHR ''-'' # str_nat (nat (- k))"
      using strip_core[of "CHR ''-'' # str_nat (nat (- k))"] d m by (simp add: str_int_def)
    with True show ?thesis by (simp add: int_of_str_def parse_nat_str_nat)
  next
    case False
    then have s: "strip (str_int k @ [newline]) = str_nat (nat k)"
      using strip_core[of "str_nat (nat k)"] d str_nat_nonempty by (simp add: str_int_def)
    obtain c cs where c: "str_nat (nat k) = c # cs" using str_nat_nonempty by (cases "str_nat (nat k)") auto
    with nd[of "nat k"] have "c \<noteq> CHR ''-''" "c \<noteq> CHR ''+''" by auto
    with s c False parse_nat_str_nat[of "nat k"] show ?thesis by (simp add: int_of_str_def)
  qed
qed

lemma universal_newlines_id: "carriage_return \<notin> set s \<Longrightarrow> universal_newlines s = s"
  by (induction s rule: universal_newlines.induct) auto

lemma readline_line: "newline \<notin> set l \<Longrightarrow> readline (l @ newline # r) = Some (l @ [newline], r)"
  by (simp add: readline_def dropWhile_append3 takeWhile_append1 takeWhile_tail dropWhile_append)

subsection \<open>Reading a well-formed run\<close>


lemma join_no_newline: "\<forall>v \<in> set vs. token v \<Longrightarrow> newline \<notin> set (join vs)"
proof (induction vs rule: join.induct)
  case 1 then show ?case by simp
next
  case (2 x)
  then show ?case using isspace_newline by (auto simp: token_def)
next
  case (3 x y ys)
  have "space \<noteq> newline" by (simp add: space_def newline_def)
  with 3 show ?case using isspace_newline by (auto simp: token_def)
qed

lemma str_int_no_newline: "newline \<notin> set (str_int k)"
proof -
  have "\<not> isdigit newline" by (simp add: isdigit_def newline_def)
  then have "newline \<notin> set (str_nat n)" for n using str_nat_digits by blast
  then show ?thesis by (simp add: str_int_def newline_def)
qed

lemma readline_pending:
  "\<forall>v \<in> set vs. token v \<Longrightarrow> readline (pending ((k, vs) # rest)) = Some (join vs @ [newline], run_text rest)"
  by (simp add: pending_def readline_line join_no_newline)

lemma readline_run_text_Nil: "readline (run_text []) = None"
  by (simp add: run_text_def readline_def)

lemma readline_run_text_Cons:
  "\<forall>v \<in> set (snd e). token v \<Longrightarrow> readline (run_text (e # rest)) = Some (str_int (fst e) @ [newline], pending (e # rest))"
  using readline_line[OF str_int_no_newline, of "fst e" "join (snd e) @ newline # run_text rest"]
  by (simp add: run_text_def entry_text_def pending_def)

lemma split_line: "\<forall>v \<in> set vs. token v \<Longrightarrow> split (join vs @ [newline]) = vs"
  by (simp add: split_def split_join)

text \<open>The items that one round of \<open>__next__\<close> pushes back.\<close>

definition advance :: "(nat \<times> entry list) list \<Rightarrow> heap_item list" where
  "advance P = map (\<lambda>(i, r). item i (tl r)) (filter (\<lambda>(i, r). tl r \<noteq> []) P)"

lemma heappush_past:
  "\<forall>p \<in> set P. \<not> item_less x p \<Longrightarrow> heappush (P @ Q) x = P @ heappush Q x"
  by (induction P) auto

lemma pop_values_prefix:
  assumes "\<forall>(i, r) \<in> set P. r \<noteq> [] \<and> fst (hd r) = k \<and> wf_run r"
    and "\<forall>q \<in> set Q. fst q \<noteq> k"
  shows "pop_values k (map (\<lambda>(i, r). item i r) P @ Q) acc =
         Inr (foldl heappush Q (advance P), acc @ concat (map (\<lambda>(i, r). snd (hd r)) P))"
  using assms
proof (induction P arbitrary: Q acc)
  case Nil
  then show ?case by (cases Q) (auto simp: advance_def)
next
  case (Cons p P)
  obtain i r where p: "p = (i, r)" by (cases p)
  with Cons.prems obtain vs rest where r: "r = (k, vs) # rest" and wf: "wf_run r"
    by (cases r) auto
  from wf r have tv: "\<forall>v \<in> set vs. token v" by (auto simp: wf_run_def)
  have rl: "readline (pending r) = Some (join vs @ [newline], run_text rest)"
    using readline_pending[OF tv] r by simp
  show ?case
  proof (cases rest)
    case Nil
    have "pop_values k (map (\<lambda>(i, r). item i r) (p # P) @ Q) acc =
          pop_values k (map (\<lambda>(i, r). item i r) P @ Q) (acc @ vs)"
      using p r rl Nil tv by (simp add: item_def readline_run_text_Nil split_line)
    also have "\<dots> = Inr (foldl heappush Q (advance P), (acc @ vs) @ concat (map (\<lambda>(i, r). snd (hd r)) P))"
      using Cons.prems by (intro Cons.IH) auto
    finally show ?thesis using p r Nil by (simp add: advance_def)
  next
    case (Cons e rest')
    from wf r Cons have te: "\<forall>v \<in> set (snd e). token v" and lt: "k < fst e"
      by (auto simp: wf_run_def)
    let ?x = "item i rest"
    have nl: "\<forall>q \<in> set (map (\<lambda>(i, r). item i r) P). \<not> item_less ?x q"
      using Cons.prems(1) lt Cons by (auto simp: item_def)
    have "pop_values k (map (\<lambda>(i, r). item i r) (p # P) @ Q) acc =
          pop_values k (heappush (map (\<lambda>(i, r). item i r) P @ Q) ?x) (acc @ vs)"
      using p r rl Cons tv te
      by (simp add: item_def readline_run_text_Cons split_line int_of_str_str_int)
    also have "\<dots> = pop_values k (map (\<lambda>(i, r). item i r) P @ heappush Q ?x) (acc @ vs)"
      using heappush_past[OF nl] by simp
    also have "\<dots> = Inr (foldl heappush (heappush Q ?x) (advance P), (acc @ vs) @ concat (map (\<lambda>(i, r). snd (hd r)) P))"
    proof (intro Cons.IH)
      show "\<forall>(i, r)\<in>set P. r \<noteq> [] \<and> fst (hd r) = k \<and> wf_run r" using Cons.prems by auto
      have "set (heappush Q ?x) = insert ?x (set Q)" for Q by (induction Q) auto
      then show "\<forall>q\<in>set (heappush Q ?x). fst q \<noteq> k" using Cons.prems(2) lt Cons by (auto simp: item_def)
    qed
    finally show ?thesis using p r Cons by (simp add: advance_def)
  qed
qed

section \<open>What the merge computes\<close>


definition vals_in :: "int \<Rightarrow> entry list \<Rightarrow> string list" where
  "vals_in k r = (case map_of r k of None \<Rightarrow> [] | Some vs \<Rightarrow> vs)"

definition merge_spec :: "entry list list \<Rightarrow> entry list" where
  "merge_spec R = map (\<lambda>k. (k, concat (map (vals_in k) R)))
     (sorted_list_of_set (\<Union>r \<in> set R. fst ` set r))"

definition adv :: "int \<Rightarrow> entry list \<Rightarrow> entry list" where
  "adv k r = (if r \<noteq> [] \<and> fst (hd r) = k then tl r else r)"

definition items :: "entry list list \<Rightarrow> heap_item set" where
  "items R = {item i (R ! i) | i. i < length R \<and> R ! i \<noteq> []}"

definition heap_inv :: "heap_item list \<Rightarrow> entry list list \<Rightarrow> bool" where
  "heap_inv h R = (sorted_wrt item_less h \<and> set h = items R \<and> (\<forall>r \<in> set R. wf_run r))"

lemma set_heappush: "set (heappush h x) = insert x (set h)"
  by (induction h) auto

lemma set_foldl_heappush: "set (foldl heappush h xs) = set h \<union> set xs"
  by (induction xs arbitrary: h) (auto simp: set_heappush)

lemma item_less_trans: "item_less x y \<Longrightarrow> item_less y z \<Longrightarrow> item_less x z"
  by (cases x; cases y; cases z) auto

lemma sorted_heappush:
  "sorted_wrt item_less h \<Longrightarrow> \<forall>y \<in> set h. fst (snd y) \<noteq> fst (snd x) \<Longrightarrow> sorted_wrt item_less (heappush h x)"
proof (induction h)
  case Nil then show ?case by simp
next
  case (Cons y ys)
  show ?case
  proof (cases "item_less x y")
    case True
    with Cons.prems show ?thesis using item_less_trans[of x y] by auto
  next
    case False
    with Cons.prems have "item_less y x" by (cases x; cases y) auto
    with False Cons show ?thesis by (auto simp: set_heappush)
  qed
qed

lemma sorted_foldl_heappush:
  "sorted_wrt item_less h \<Longrightarrow> distinct (map (fst \<circ> snd) xs) \<Longrightarrow>
   \<forall>y \<in> set h. \<forall>x \<in> set xs. fst (snd y) \<noteq> fst (snd x) \<Longrightarrow> sorted_wrt item_less (foldl heappush h xs)"
proof (induction xs arbitrary: h)
  case Nil then show ?case by simp
next
  case (Cons x xs)
  have "sorted_wrt item_less (heappush h x)" using Cons.prems by (intro sorted_heappush) auto
  moreover have "\<forall>y\<in>set (heappush h x). \<forall>x\<in>set xs. fst (snd y) \<noteq> fst (snd x)"
    using Cons.prems by (auto simp: set_heappush)
  ultimately show ?case using Cons.prems by (simp add: Cons.IH)
qed

lemma concat_map_filter: "concat (map f (filter c xs)) = concat (map (\<lambda>x. if c x then f x else []) xs)"
  by (induction xs) auto

lemma filter_upt_sorted: "sorted_wrt (<) (filter c [0..<n])"
  by (simp add: sorted_wrt_filter)


lemma wf_run_tl: "wf_run r \<Longrightarrow> wf_run (tl r)"
  by (cases r) (auto simp: wf_run_def)

lemma wf_run_adv: "wf_run r \<Longrightarrow> wf_run (adv k r)"
  by (simp add: adv_def wf_run_tl)

lemma wf_run_hd_le: "wf_run r \<Longrightarrow> e \<in> set r \<Longrightarrow> fst (hd r) \<le> fst e"
  by (cases r) (auto simp: wf_run_def)

lemma sorted_item_less_keys: "sorted_wrt item_less h \<Longrightarrow> sorted (map fst h)"
  by (induction h) (auto, force)

lemma dropWhile_key_greater:
  "sorted_wrt item_less h \<Longrightarrow> \<forall>q \<in> set h. k \<le> fst q \<Longrightarrow> \<forall>q \<in> set (dropWhile (\<lambda>q. fst q = k) h). k < fst q"
proof (induction h)
  case Nil then show ?case by simp
next
  case (Cons a t)
  show ?case
  proof (cases "fst a = k")
    case True with Cons show ?thesis by simp
  next
    case False
    with Cons.prems have "k < fst a" by force
    moreover have "\<forall>q \<in> set t. fst a \<le> fst q" using Cons.prems(1) by (cases a) force
    ultimately show ?thesis using False by force
  qed
qed

lemma same_key_sorted_index:
  "sorted_wrt item_less P \<Longrightarrow> \<forall>q \<in> set P. fst q = k \<Longrightarrow> sorted_wrt (<) (map (fst \<circ> snd) P)"
  by (induction P) (auto, force)

lemma map_of_hd: "wf_run r \<Longrightarrow> r \<noteq> [] \<Longrightarrow> map_of r (fst (hd r)) = Some (snd (hd r))"
  by (cases r) auto

lemma vals_in_head:
  assumes "wf_run r" "\<forall>e \<in> set r. k \<le> fst e"
  shows "vals_in k r = (if r \<noteq> [] \<and> fst (hd r) = k then snd (hd r) else [])"
proof (cases "r \<noteq> [] \<and> fst (hd r) = k")
  case True
  then show ?thesis using map_of_hd[OF assms(1)] by (auto simp: vals_in_def)
next
  case False
  have "k \<notin> fst ` set r"
  proof
    assume "k \<in> fst ` set r"
    then obtain e where e: "e \<in> set r" "fst e = k" by auto
    then have "r \<noteq> []" by auto
    moreover have "fst (hd r) \<le> k" using wf_run_hd_le[OF assms(1) e(1)] e by simp
    moreover have "k \<le> fst (hd r)" using assms(2) \<open>r \<noteq> []\<close> by simp
    ultimately show False using False by simp
  qed
  then have "map_of r k = None" by (simp add: map_of_eq_None_iff)
  with False show ?thesis by (auto simp: vals_in_def)
qed

lemma keys_adv:
  assumes "wf_run r" "\<forall>e \<in> set r. k \<le> fst e"
  shows "fst ` set (adv k r) = fst ` set r - {k}"
proof (cases r)
  case Nil then show ?thesis by (simp add: adv_def)
next
  case (Cons a t)
  have lt: "\<forall>e \<in> set t. fst a < fst e" using assms(1) Cons by (auto simp: wf_run_def)
  show ?thesis
  proof (cases "fst a = k")
    case True
    with lt have "k \<notin> fst ` set t" by force
    with True Cons show ?thesis by (auto simp: adv_def)
  next
    case False
    with assms(2) Cons have "k < fst a" by force
    with lt have "k \<notin> fst ` set t" by force
    with False Cons show ?thesis by (auto simp: adv_def)
  qed
qed

lemma vals_in_adv: "k' \<noteq> k \<Longrightarrow> vals_in k' (adv k r) = vals_in k' r"
  by (cases r) (auto simp: adv_def vals_in_def)

lemma merge_spec_step:
  assumes wf: "\<forall>r \<in> set R. wf_run r"
    and low: "\<forall>r \<in> set R. \<forall>e \<in> set r. k \<le> fst e"
    and ex: "\<exists>r \<in> set R. r \<noteq> [] \<and> fst (hd r) = k"
  shows "merge_spec R =
    (k, concat (map (\<lambda>r. if r \<noteq> [] \<and> fst (hd r) = k then snd (hd r) else []) R)) #
    merge_spec (map (adv k) R)"
proof -
  let ?K = "\<Union>r \<in> set R. fst ` set r"
  have fin: "finite ?K" by simp
  have kin: "k \<in> ?K" using ex by (metis (no_types, lifting) UN_I hd_in_set image_eqI)
  have "Min ?K = k" using low kin by (intro Min_eqI[OF fin]) auto
  moreover have "?K \<noteq> {}" using kin by blast
  ultimately have sl: "sorted_list_of_set ?K = k # sorted_list_of_set (?K - {k})"
    using sorted_list_of_set_nonempty[OF fin] by simp
  have K': "(\<Union>r \<in> set (map (adv k) R). fst ` set r) = ?K - {k}"
    using keys_adv wf low by auto
  have v: "map (vals_in k) R = map (\<lambda>r. if r \<noteq> [] \<and> fst (hd r) = k then snd (hd r) else []) R"
    using vals_in_head wf low by (intro map_cong) auto
  have "map (\<lambda>k'. (k', concat (map (vals_in k') R))) (sorted_list_of_set (?K - {k})) =
        map (\<lambda>k'. (k', concat (map (vals_in k') (map (adv k) R)))) (sorted_list_of_set (?K - {k}))"
    by (intro map_cong) (auto simp: vals_in_adv comp_def)
  then show ?thesis
    unfolding merge_spec_def K' by (simp add: sl v)
qed


lemma item_index [simp]: "fst (snd (item i r)) = i" by (simp add: item_def)
lemma item_key [simp]: "fst (item i r) = fst (hd r)" by (simp add: item_def)

lemma merge_next_step:
  assumes inv: "heap_inv h R" and ne: "h \<noteq> []"
  defines "k \<equiv> fst (hd h)"
  shows "\<exists>h'. merge_next h =
            Inr ((k, concat (map (\<lambda>r. if r \<noteq> [] \<and> fst (hd r) = k then snd (hd r) else []) R)), h')
          \<and> heap_inv h' (map (adv k) R)"
    and "\<forall>r \<in> set R. \<forall>e \<in> set r. k \<le> fst e"
    and "\<exists>r \<in> set R. r \<noteq> [] \<and> fst (hd r) = k"
proof -
  let ?n = "length R"
  let ?c = "\<lambda>i. R ! i \<noteq> [] \<and> fst (hd (R ! i)) = k"
  let ?Pc = "takeWhile (\<lambda>q. fst q = k) h"
  let ?Q = "dropWhile (\<lambda>q. fst q = k) h"
  define I where "I = map (fst \<circ> snd) ?Pc"
  let ?I = "I"
  let ?P = "map (\<lambda>i. (i, R ! i)) ?I"
  from inv have srt: "sorted_wrt item_less h" and seth: "set h = items R" and wf: "\<forall>r \<in> set R. wf_run r"
    by (auto simp: heap_inv_def)
  have mem: "\<exists>i. i < ?n \<and> R ! i \<noteq> [] \<and> q = item i (R ! i)" if "q \<in> set h" for q
    using that seth by (auto simp: items_def)
  have memI: "item i (R ! i) \<in> set h" if "i < ?n" "R ! i \<noteq> []" for i
    using that seth by (auto simp: items_def)
  have keys_ge: "\<forall>q \<in> set h. k \<le> fst q"
    using sorted_item_less_keys[OF srt] ne by (cases h) (auto simp: k_def)
  have Q: "\<forall>q \<in> set ?Q. k < fst q"
    using dropWhile_key_greater[OF srt keys_ge] .
  have hPQ: "h = ?Pc @ ?Q" by simp
  have Pc_sub: "set ?Pc \<subseteq> set h" by (rule set_takeWhileD[THEN conjunct1, THEN subsetI]) 
  have Pc_key: "\<forall>q \<in> set ?Pc. fst q = k" by (auto dest: set_takeWhileD)
  have Pc_set: "set ?Pc = {q \<in> set h. fst q = k}"
  proof -
    have "set h = set ?Pc \<union> set ?Q" by (metis hPQ set_append)
    with Q Pc_key show ?thesis by force
  qed
  have low: "\<forall>r \<in> set R. \<forall>e \<in> set r. k \<le> fst e"
  proof (intro ballI)
    fix r e assume r: "r \<in> set R" and e: "e \<in> set r"
    then obtain i where i: "i < ?n" "R ! i = r" by (auto simp: in_set_conv_nth)
    from e i have "R ! i \<noteq> []" by auto
    with i have "item i r \<in> set h" using memI[of i] by auto
    with keys_ge have "k \<le> fst (hd r)" by force
    with wf_run_hd_le[of r e] wf r e show "k \<le> fst e" by force
  qed
  obtain i0 where i0: "i0 < ?n" "R ! i0 \<noteq> []" "hd h = item i0 (R ! i0)"
    using mem[of "hd h"] ne by auto
  then have ex: "\<exists>r \<in> set R. r \<noteq> [] \<and> fst (hd r) = k"
    by (auto simp: k_def intro!: bexI[of _ "R ! i0"])
  have mapP: "map (\<lambda>(i, r). item i r) ?P = ?Pc"
  proof -
    have "map (\<lambda>q. item (fst (snd q)) (R ! fst (snd q))) ?Pc = ?Pc"
    proof (intro map_idI)
      fix q assume "q \<in> set ?Pc"
      with Pc_sub have "q \<in> set h" by blast
      then obtain i where "q = item i (R ! i)" using mem by blast
      then show "item (fst (snd q)) (R ! fst (snd q)) = q" by simp
    qed
    then show ?thesis by (simp add: comp_def I_def)
  qed
  have preP: "\<forall>(i, r) \<in> set ?P. r \<noteq> [] \<and> fst (hd r) = k \<and> wf_run r"
  proof -
    { fix q assume q: "q \<in> set ?Pc"
      then have "q \<in> set h" using Pc_sub by blast
      then obtain i where i: "i < ?n" "R ! i \<noteq> []" "q = item i (R ! i)" using mem by blast
      with Pc_key q wf have "R ! fst (snd q) \<noteq> [] \<and> fst (hd (R ! fst (snd q))) = k \<and> wf_run (R ! fst (snd q))"
        by auto }
    then show ?thesis by (auto simp: I_def)
  qed
  have preQ: "\<forall>q \<in> set ?Q. fst q \<noteq> k" using Q by auto
  have pop: "pop_values k h [] =
      Inr (foldl heappush ?Q (advance ?P), [] @ concat (map (\<lambda>(i, r). snd (hd r)) ?P))"
    using pop_values_prefix[OF preP preQ, of "[]"] mapP by simp
  have Isorted: "sorted_wrt (<) ?I"
    unfolding I_def using same_key_sorted_index[OF _ Pc_key] srt hPQ by (metis sorted_wrt_append)
  have Iset: "set ?I = {i. i < ?n \<and> ?c i}"
  proof (intro set_eqI iffI)
    fix i assume "i \<in> set ?I"
    then obtain q where q: "q \<in> set ?Pc" "i = fst (snd q)" by (auto simp: I_def)
    from q Pc_sub have "q \<in> set h" by blast
    then obtain j where "j < ?n" "R ! j \<noteq> []" "q = item j (R ! j)" using mem by blast
    with q Pc_key show "i \<in> {i. i < ?n \<and> ?c i}" by auto
  next
    fix i assume "i \<in> {i. i < ?n \<and> ?c i}"
    then have "item i (R ! i) \<in> set ?Pc" using memI[of i] by (simp add: Pc_set)
    then have "fst (snd (item i (R ! i))) \<in> set ?I" unfolding I_def by (metis comp_apply image_eqI set_map)
    then show "i \<in> set ?I" by simp
  qed
  have "set (filter ?c [0..<?n]) = {i. i < ?n \<and> ?c i}" by auto
  then have "set ?I = set (filter ?c [0..<?n])" using Iset by (simp only:)
  then have Ieq: "?I = filter ?c [0..<?n]"
    by (rule strict_sorted_equal[OF filter_upt_sorted Isorted])
  have V: "concat (map (\<lambda>(i, r). snd (hd r)) ?P) =
           concat (map (\<lambda>r. if r \<noteq> [] \<and> fst (hd r) = k then snd (hd r) else []) R)"
  proof -
    have "concat (map (\<lambda>(i, r). snd (hd r)) ?P) = concat (map (\<lambda>i. snd (hd (R ! i))) (filter ?c [0..<?n]))"
      by (simp add: Ieq comp_def)
    also have "\<dots> = concat (map (\<lambda>i. if ?c i then snd (hd (R ! i)) else []) [0..<?n])"
      by (rule concat_map_filter)
    also have "\<dots> = concat (map (\<lambda>r. if r \<noteq> [] \<and> fst (hd r) = k then snd (hd r) else []) (map (\<lambda>i. R ! i) [0..<?n]))"
      by (simp add: comp_def)
    finally show ?thesis by (simp add: map_nth)
  qed
  let ?h' = "foldl heappush ?Q (advance ?P)"
  have adv_idx: "map (fst \<circ> snd) (advance ?P) = filter (\<lambda>i. tl (R ! i) \<noteq> []) ?I"
    by (simp add: advance_def comp_def filter_map case_prod_unfold)
  have inv': "heap_inv ?h' (map (adv k) R)"
    unfolding heap_inv_def
  proof (intro conjI)
    show "sorted_wrt item_less ?h'"
    proof (rule sorted_foldl_heappush)
      show "sorted_wrt item_less ?Q" using srt sorted_wrt_append[of item_less ?Pc ?Q] by simp
      show "distinct (map (fst \<circ> snd) (advance ?P))"
        unfolding adv_idx using Isorted by (simp add: strict_sorted_iff)
      show "\<forall>y\<in>set ?Q. \<forall>x\<in>set (advance ?P). fst (snd y) \<noteq> fst (snd x)"
      proof (intro ballI notI)
        fix y x assume y: "y \<in> set ?Q" and x: "x \<in> set (advance ?P)" and eq: "fst (snd y) = fst (snd x)"
        from x have "fst (snd x) \<in> set (map (fst \<circ> snd) (advance ?P))" by simp
        then have "fst (snd x) \<in> set ?I" unfolding adv_idx by simp
        then have c: "?c (fst (snd x))" using Iset by blast
        from y have "y \<in> set h" by (rule set_dropWhileD)
        then obtain j where j: "j < ?n" "R ! j \<noteq> []" "y = item j (R ! j)" using mem by blast
        then have "fst (snd y) = j" by simp
        with eq c j have "fst y = k" by simp
        with Q y show False by blast
      qed
    qed
    show "set ?h' = items (map (adv k) R)"
    proof (intro set_eqI iffI)
      fix q assume "q \<in> set ?h'"
      then consider "q \<in> set ?Q" | "q \<in> set (advance ?P)" by (auto simp: set_foldl_heappush)
      then show "q \<in> items (map (adv k) R)"
      proof cases
        case 1
        then have "q \<in> set h" by (rule set_dropWhileD)
        then obtain j where j: "j < ?n" "R ! j \<noteq> []" "q = item j (R ! j)" using mem by blast
        with Q 1 have "fst (hd (R ! j)) \<noteq> k" by auto
        with j show ?thesis by (auto simp: items_def adv_def intro!: exI[of _ j])
      next
        case 2
        then obtain i where i: "i \<in> set ?I" "tl (R ! i) \<noteq> []" "q = item i (tl (R ! i))"
          by (auto simp: advance_def)
        with Iset have "i < ?n" "?c i" by auto
        with i show ?thesis by (auto simp: items_def adv_def intro!: exI[of _ i])
      qed
    next
      fix q assume "q \<in> items (map (adv k) R)"
      then obtain i where i: "i < ?n" "adv k (R ! i) \<noteq> []" "q = item i (adv k (R ! i))"
        by (auto simp: items_def)
      show "q \<in> set ?h'"
      proof (cases "?c i")
        case True
        with i have "tl (R ! i) \<noteq> []" "q = item i (tl (R ! i))" by (auto simp: adv_def)
        moreover have "i \<in> set ?I" using True i Iset by auto
        ultimately have "q \<in> set (advance ?P)" by (force simp: advance_def)
        then show ?thesis by (simp add: set_foldl_heappush)
      next
        case False
        with i have ne: "R ! i \<noteq> []" and q: "q = item i (R ! i)" by (auto simp: adv_def)
        with i memI[of i] have "q \<in> set h" by simp
        moreover have "fst q \<noteq> k" using False ne q by simp
        moreover have "set h = set ?Pc \<union> set ?Q" using set_append[of ?Pc ?Q] by simp
        ultimately have "q \<in> set ?Q" using Pc_key by blast
        then show ?thesis by (simp add: set_foldl_heappush)
      qed
    qed
    show "\<forall>r\<in>set (map (adv k) R). wf_run r" using wf wf_run_adv by auto
  qed
  obtain a b c t where h: "h = (a, b, c) # t" using ne by (cases h) auto
  then have "a = k" by (simp add: k_def)
  with h pop V have "merge_next h =
      Inr ((k, concat (map (\<lambda>r. if r \<noteq> [] \<and> fst (hd r) = k then snd (hd r) else []) R)), ?h')"
    by (simp add: merge_next_def)
  with inv' show "\<exists>h'. merge_next h =
            Inr ((k, concat (map (\<lambda>r. if r \<noteq> [] \<and> fst (hd r) = k then snd (hd r) else []) R)), h')
          \<and> heap_inv h' (map (adv k) R)" by blast
  show "\<forall>r \<in> set R. \<forall>e \<in> set r. k \<le> fst e" by (rule low)
  show "\<exists>r \<in> set R. r \<noteq> [] \<and> fst (hd r) = k" by (rule ex)
qed


lemma pop_values_le: "pop_values k h acc = Inr (h', vs) \<Longrightarrow> heap_size h' \<le> heap_size h"
proof (induction k h acc arbitrary: h' vs rule: pop_values.induct)
  case (1 current_key values_list)
  then show ?case by simp
next
  case (2 current_key key index f heap values_list)
  show ?case
  proof (cases "key \<noteq> current_key")
    case True
    with 2(3) show ?thesis by simp
  next
    case False
    then obtain line f1 where r1: "readline f = Some (line, f1)"
      using 2(3) by (cases "readline f") auto
    show ?thesis
    proof (cases "readline f1")
      case None
      with False r1 2(3) have "pop_values current_key heap (values_list @ split line) = Inr (h', vs)" by simp
      from 2(1)[OF False r1 refl None this] show ?thesis by (simp add: heap_size_def)
    next
      case (Some a)
      obtain line2 f2 where a: "a = (line2, f2)" by (cases a)
      from Some a False r1 2(3) obtain key2 where k2: "int_of_str line2 = Some key2"
        by (cases "int_of_str line2") auto
      with Some a False r1 2(3) have
        "pop_values current_key (heappush heap (key2, index, f2)) (values_list @ split line) = Inr (h', vs)" by simp
      from 2(2)[OF False r1 refl Some[unfolded a] refl k2 this]
      have "heap_size h' \<le> heap_size (heappush heap (key2, index, f2))" .
      moreover have "length f2 < length f"
        using readline_shorter[OF r1] readline_shorter[OF Some[unfolded a]] by simp
      ultimately show ?thesis by (simp add: heap_size_heappush) (simp add: heap_size_def)
    qed
  qed
qed

lemma merge_next_size: "merge_next h = Inr (e, h') \<Longrightarrow> heap_size h' < heap_size h"
proof -
  assume a: "merge_next h = Inr (e, h')"
  then obtain k i f t where h: "h = (k, i, f) # t" by (cases h) (auto simp: merge_next_def)
  with a obtain vs where p: "pop_values k ((k, i, f) # t) [] = Inr (h', vs)"
    by (auto simp: merge_next_def split: sum.splits)
  then obtain line f1 where r1: "readline f = Some (line, f1)"
    by (cases "readline f") auto
  show ?thesis
  proof (cases "readline f1")
    case None
    with r1 p have "pop_values k t (split line) = Inr (h', vs)" by simp
    from pop_values_le[OF this] show ?thesis by (simp add: h heap_size_def)
  next
    case (Some a)
    obtain line2 f2 where a: "a = (line2, f2)" by (cases a)
    from Some a r1 p obtain key2 where k2: "int_of_str line2 = Some key2"
      by (cases "int_of_str line2") auto
    with Some a r1 p have "pop_values k (heappush t (key2, i, f2)) (split line) = Inr (h', vs)" by simp
    from pop_values_le[OF this] have "heap_size h' \<le> heap_size (heappush t (key2, i, f2))" .
    moreover have "length f2 < length f"
      using readline_shorter[OF r1] readline_shorter[OF Some[unfolded a]] by simp
    ultimately show ?thesis by (simp add: h heap_size_heappush) (simp add: heap_size_def)
  qed
qed

function iterate_merge :: "heap_item list \<Rightarrow> entry list \<times> error option" where
  "iterate_merge heap = (case merge_next heap of
       Inl e \<Rightarrow> ([], if e = StopIteration then None else Some e)
     | Inr (kv, heap') \<Rightarrow> (case iterate_merge heap' of (kvs, r) \<Rightarrow> (kv # kvs, r)))"
  by pat_completeness auto
termination
  by (relation "measure heap_size") (auto simp: merge_next_size)

declare iterate_merge.simps [simp del]

function consume_merge :: "heap_item list \<Rightarrow> error + entry list" where
  "consume_merge heap = (if hasNext_merge heap then
       (case merge_next heap of Inl e \<Rightarrow> Inl e
        | Inr (kv, heap') \<Rightarrow>
            (case consume_merge heap' of Inl e \<Rightarrow> Inl e | Inr kvs \<Rightarrow> Inr (kv # kvs)))
     else Inr [])"
  by pat_completeness auto
termination
  by (relation "measure heap_size") (auto simp: merge_next_size)

declare consume_merge.simps [simp del]

lemma length_adv: "length (adv k r) \<le> length r"
  by (simp add: adv_def)

lemma adv_decreases:
  "\<exists>r \<in> set R. r \<noteq> [] \<and> fst (hd r) = k \<Longrightarrow>
   sum_list (map length (map (adv k) R)) < sum_list (map length R)"
proof (induction R)
  case Nil then show ?case by simp
next
  case (Cons r R)
  have le: "sum_list (map length (map (adv k) R)) \<le> sum_list (map length R)"
    by (induction R) (auto simp: adv_def)
  show ?case
  proof (cases "r \<noteq> [] \<and> fst (hd r) = k")
    case True
    then have "length (adv k r) < length r" by (simp add: adv_def)
    with le show ?thesis by simp
  next
    case False
    with Cons have "sum_list (map length (map (adv k) R)) < sum_list (map length R)" by auto
    with length_adv[of k r] show ?thesis by simp
  qed
qed

lemma merge_spec_exhausted: "items R = {} \<Longrightarrow> merge_spec R = []"
proof -
  assume a: "items R = {}"
  have "r = []" if "r \<in> set R" for r
  proof -
    from that obtain i where i: "i < length R" "R ! i = r" by (auto simp: in_set_conv_nth)
    show ?thesis
    proof (rule ccontr)
      assume "r \<noteq> []"
      with i have "item i (R ! i) \<in> items R" unfolding items_def by blast
      with a show False by simp
    qed
  qed
  then have "(\<Union>r \<in> set R. fst ` set r) = {}" by auto
  then show ?thesis by (simp add: merge_spec_def)
qed

lemma merge_correct:
  "heap_inv h R \<Longrightarrow> iterate_merge h = (merge_spec R, None) \<and> consume_merge h = Inr (merge_spec R)"
proof (induction "sum_list (map length R)" arbitrary: h R rule: less_induct)
  case less
  show ?case
  proof (cases "h = []")
    case True
    with less.prems have "items R = {}" by (simp add: heap_inv_def)
    then have "merge_spec R = []" by (rule merge_spec_exhausted)
    with True show ?thesis
      by (subst iterate_merge.simps, subst consume_merge.simps) (simp add: merge_next_def hasNext_merge_def)
  next
    case False
    let ?k = "fst (hd h)"
    let ?V = "concat (map (\<lambda>r. if r \<noteq> [] \<and> fst (hd r) = ?k then snd (hd r) else []) R)"
    from merge_next_step[OF less.prems False]
    obtain h' where nx: "merge_next h = Inr ((?k, ?V), h')" and inv': "heap_inv h' (map (adv ?k) R)"
      and low: "\<forall>r \<in> set R. \<forall>e \<in> set r. ?k \<le> fst e"
      and ex: "\<exists>r \<in> set R. r \<noteq> [] \<and> fst (hd r) = ?k" by blast
    from less.prems have wf: "\<forall>r \<in> set R. wf_run r" by (simp add: heap_inv_def)
    have sp: "merge_spec R = (?k, ?V) # merge_spec (map (adv ?k) R)"
      by (rule merge_spec_step[OF wf low ex])
    have IH: "iterate_merge h' = (merge_spec (map (adv ?k) R), None) \<and>
              consume_merge h' = Inr (merge_spec (map (adv ?k) R))"
      using less.hyps[OF adv_decreases[OF ex] inv'] .
    show ?thesis
      by (subst iterate_merge.simps, subst consume_merge.simps)
         (simp add: nx IH sp hasNext_merge_def False)
  qed
qed


lemma cr_not_in_str_int: "carriage_return \<notin> set (str_int k)"
proof -
  have "\<not> isdigit carriage_return" by (simp add: isdigit_def carriage_return_def)
  then have "carriage_return \<notin> set (str_nat n)" for n using str_nat_digits by blast
  then show ?thesis by (simp add: str_int_def carriage_return_def)
qed

lemma cr_not_in_join: "\<forall>v \<in> set vs. token v \<Longrightarrow> carriage_return \<notin> set (join vs)"
proof (induction vs rule: join.induct)
  case 1 then show ?case by simp
next
  case (2 x)
  then show ?case using isspace_cr by (auto simp: token_def)
next
  case (3 x y ys)
  have "space \<noteq> carriage_return" by (simp add: space_def carriage_return_def)
  with 3 show ?case using isspace_cr by (auto simp: token_def)
qed

lemma cr_not_in_run_text: "wf_run r \<Longrightarrow> carriage_return \<notin> set (run_text r)"
proof -
  assume wf: "wf_run r"
  have nl: "newline \<noteq> carriage_return" by (simp add: newline_def carriage_return_def)
  have "carriage_return \<notin> set (entry_text e)" if "e \<in> set r" for e
    using that wf cr_not_in_str_int cr_not_in_join[of "snd e"] nl
    by (auto simp: entry_text_def wf_run_def)
  then show ?thesis by (auto simp: run_text_def)
qed

lemma push_first_keys_runs:
  "\<forall>r \<in> set Rs. r \<noteq> [] \<and> wf_run r \<Longrightarrow>
   push_first_keys n (map run_text Rs) h0 =
     Inr (foldl heappush h0 (map (\<lambda>(i, r). item i r) (zip [n..<n + length Rs] Rs)))"
proof (induction Rs arbitrary: n h0)
  case Nil then show ?case by simp
next
  case (Cons r Rs)
  then obtain e rest where r: "r = e # rest" by (cases r) auto
  with Cons.prems have te: "\<forall>v \<in> set (snd e). token v" by (auto simp: wf_run_def)
  have up: "[n..<n + length (r # Rs)] = n # [Suc n..<Suc n + length Rs]"
    using upt_conv_Cons[of n "n + length (r # Rs)"] by simp
  have "push_first_keys n (map run_text (r # Rs)) h0 =
        push_first_keys (Suc n) (map run_text Rs) (heappush h0 (item n r))"
    using r by (simp add: readline_run_text_Cons[OF te] int_of_str_str_int item_def)
  also have "\<dots> = Inr (foldl heappush (heappush h0 (item n r))
        (map (\<lambda>(i, r). item i r) (zip [Suc n..<Suc n + length Rs] Rs)))"
    using Cons.prems by (intro Cons.IH) auto
  finally show ?case unfolding up by simp
qed

lemma initial_heap_inv:
  assumes "\<forall>r \<in> set Rs. r \<noteq> [] \<and> wf_run r"
  shows "heap_inv (foldl heappush [] (map (\<lambda>(i, r). item i r) (zip [0..<length Rs] Rs))) Rs"
proof -
  let ?xs = "map (\<lambda>(i, r). item i r) (zip [0..<length Rs] Rs)"
  have idx: "map (fst \<circ> snd) ?xs = [0..<length Rs]"
  proof -
    have "map (fst \<circ> snd) ?xs = map fst (zip [0..<length Rs] Rs)"
      by (simp add: comp_def case_prod_unfold)
    then show ?thesis by simp
  qed
  have "distinct (map (fst \<circ> snd) ?xs)" unfolding idx by simp
  then have srt: "sorted_wrt item_less (foldl heappush [] ?xs)"
    by (intro sorted_foldl_heappush) simp_all
  have "set ?xs = items Rs"
  proof (intro set_eqI iffI)
    fix q assume "q \<in> set ?xs"
    then obtain i r where "(i, r) \<in> set (zip [0..<length Rs] Rs)" "q = item i r" by auto
    then obtain j where "j < length Rs" "i = j" "r = Rs ! j"
      by (auto simp: set_zip)
    with assms \<open>q = item i r\<close> show "q \<in> items Rs" unfolding items_def by auto
  next
    fix q assume "q \<in> items Rs"
    then obtain i where i: "i < length Rs" "q = item i (Rs ! i)" by (auto simp: items_def)
    then have "(i, Rs ! i) \<in> set (zip [0..<length Rs] Rs)"
      by (auto simp: set_zip intro!: exI[of _ i])
    with i show "q \<in> set ?xs" by force
  qed
  then have "set (foldl heappush [] ?xs) = items Rs" by (simp add: set_foldl_heappush)
  with srt assms show ?thesis by (simp add: heap_inv_def)
qed

lemma open_all_runs:
  "list_all2 (\<lambda>p r. files fs p = Some (run_text r) \<and> wf_run r) ps Rs \<Longrightarrow>
   open_all fs ps = Inr (map run_text Rs)"
proof (induction ps Rs rule: list_all2_induct)
  case Nil then show ?case by simp
next
  case (Cons p ps r Rs)
  then show ?case
    by (simp add: open_read_def universal_newlines_id cr_not_in_run_text)
qed

lemma MergeFileIterator_runs:
  assumes "list_all2 (\<lambda>p r. files fs p = Some (run_text r) \<and> wf_run r) ps Rs"
    and "\<forall>r \<in> set Rs. r \<noteq> []"
  shows "\<exists>h. MergeFileIterator fs ps = Inr h \<and> heap_inv h Rs"
proof -
  have wf: "\<forall>r \<in> set Rs. r \<noteq> [] \<and> wf_run r"
    using assms by (auto simp: list_all2_conv_all_nth in_set_conv_nth)
  have "MergeFileIterator fs ps =
        Inr (foldl heappush [] (map (\<lambda>(i, r). item i r) (zip [0..<length Rs] Rs)))"
    using open_all_runs[OF assms(1)] push_first_keys_runs[OF wf, of 0 "[]"]
    by (simp add: MergeFileIterator_def)
  with initial_heap_inv[OF wf] show ?thesis by simp
qed

lemma merge_spec_single: "sorted_wrt (<) (map fst r) \<Longrightarrow> merge_spec [r] = r"
proof -
  assume s: "sorted_wrt (<) (map fst r)"
  then have d: "distinct (map fst r)" by (simp add: strict_sorted_iff)
  have "sorted_list_of_set (fst ` set r) = map fst r"
    using s by (metis list.set_map sorted_list_of_set.idem_if_sorted_distinct strict_sorted_iff)
  moreover have "vals_in (fst e) r = snd e" if "e \<in> set r" for e
  proof -
    from that have "(fst e, snd e) \<in> set r" by simp
    with d have "map_of r (fst e) = Some (snd e)" by (rule map_of_is_SomeI)
    then show ?thesis by (simp add: vals_in_def)
  qed
  ultimately show ?thesis
    by (simp add: merge_spec_def map_idI)
qed


section \<open>The run format round trip\<close>

text \<open>
  Writing a run to a file and reading that one file back through the merge, the way
  \<^verbatim>\<open>test_single_file_merge\<close> does: \<^verbatim>\<open>while m.hasNext(): next(m)\<close>.
\<close>

definition write_then_read :: "entry list \<Rightarrow> string \<Rightarrow> fsys \<Rightarrow> error + entry list" where
  "write_then_read kvs filename fs =
     (case MergeFileIterator (write_key_values_to_file kvs filename fs) [filename] of
        Inl e \<Rightarrow> Inl e
      | Inr heap \<Rightarrow> consume_merge heap)"

definition whitespace_free :: "string \<Rightarrow> bool" where
  "whitespace_free v = (\<forall>c \<in> set v. \<not> isspace c)"

text \<open>The runs that the round-trip claim speaks of.\<close>

definition claimed_run :: "entry list \<Rightarrow> bool" where
  "claimed_run kvs = (sorted_wrt (<) (map fst kvs) \<and> distinct (map fst kvs) \<and>
     (\<forall>e \<in> set kvs. snd e \<noteq> [] \<and> (\<forall>v \<in> set (snd e). whitespace_free v)))"

text \<open>
  Claim C7, amended. For every non-empty sequence of (key, values) pairs with strictly
  ascending keys whose values are non-empty strings free of whitespace, writing the
  sequence with \<^verbatim>\<open>write_key_values_to_file\<close> and reading the one file back through
  \<^verbatim>\<open>MergeFileIterator\<close> yields exactly the sequence that was written.
\<close>

theorem run_roundtrip:
  assumes "kvs \<noteq> []" and "sorted_wrt (<) (map fst kvs)"
    and "\<forall>e \<in> set kvs. \<forall>v \<in> set (snd e). v \<noteq> [] \<and> whitespace_free v"
  shows "write_then_read kvs filename fs = Inr kvs"
proof -
  have wf: "wf_run kvs" using assms by (auto simp: wf_run_def token_def whitespace_free_def)
  let ?fs = "write_key_values_to_file kvs filename fs"
  have "list_all2 (\<lambda>p r. files ?fs p = Some (run_text r) \<and> wf_run r) [filename] [kvs]"
    using wf by (simp add: write_key_values_to_file_def)
  from MergeFileIterator_runs[OF this] assms(1)
  obtain h where h: "MergeFileIterator ?fs [filename] = Inr h" "heap_inv h [kvs]" by auto
  from merge_correct[OF h(2)] have "consume_merge h = Inr (merge_spec [kvs])" by simp
  with h(1) show ?thesis by (simp add: write_then_read_def merge_spec_single[OF assms(2)])
qed

theorem run_roundtrip_witness:
  "write_then_read [(- 3, [''a'', ''bc'']), (10, [''7''])] ''run'' \<lparr>dirs = {}, files = Map.empty\<rparr>
     = Inr [(- 3, [''a'', ''bc'']), (10, [''7''])]"
  by (rule run_roundtrip) (simp_all add: whitespace_free_def isspace_def)

text \<open>
  The claim as stated fails twice. The empty string is free of whitespace, but a values
  line that holds only empty strings splits into no value at all; and the empty sequence
  writes an empty file, on which the constructor of the iterator raises
  \<^verbatim>\<open>StopIteration\<close>.
\<close>

theorem run_roundtrip_counterexample:
  "claimed_run [(1, [''''])] \<and>
   write_then_read [(1, [''''])] ''run'' \<lparr>dirs = {}, files = Map.empty\<rparr> = Inr [(1, [])] \<and>
   claimed_run [] \<and>
   write_then_read [] ''run'' \<lparr>dirs = {}, files = Map.empty\<rparr> = Inl StopIteration"
proof (intro conjI)
  show "claimed_run [(1, [''''])]" by (simp add: claimed_run_def whitespace_free_def)
  show "claimed_run []" by (simp add: claimed_run_def)
  show "write_then_read [(1, [''''])] ''run'' \<lparr>dirs = {}, files = Map.empty\<rparr> = Inr [(1, [])]"
    by code_simp
  show "write_then_read [] ''run'' \<lparr>dirs = {}, files = Map.empty\<rparr> = Inl StopIteration"
    by code_simp
qed


section \<open>The in-memory multimap\<close>

text \<open>
  The values of the input stream: the tests feed integers, the documentation of
  \<^verbatim>\<open>groupBy\<close> speaks of strings. \<open>str_of\<close> is \<^verbatim>\<open>str(value)\<close>.
\<close>

datatype pyval = PyInt int | PyStr string

fun str_of :: "pyval \<Rightarrow> string" where
  "str_of (PyInt i) = str_int i"
| "str_of (PyStr s) = s"

text \<open>
  A \<^verbatim>\<open>defaultdict(list)\<close> is an association list in insertion order with distinct keys;
  a key that is missing reads as the empty list.
\<close>

type_synonym hashmap = "(int \<times> string list) list"

text \<open>\<^verbatim>\<open>hashmap[key].append(v)\<close>\<close>

fun hashmap_append :: "int \<Rightarrow> string \<Rightarrow> hashmap \<Rightarrow> hashmap" where
  "hashmap_append key v [] = [(key, [v])]"
| "hashmap_append key v ((k, vs) # h) =
     (if k = key then (k, vs @ [v]) # h else (k, vs) # hashmap_append key v h)"

definition getitem :: "hashmap \<Rightarrow> int \<Rightarrow> string list" where
  "getitem h key = (case map_of h key of None \<Rightarrow> [] | Some vs \<Rightarrow> vs)"

text \<open>\<^verbatim>\<open>[(key, hashmap[key]) for key in sorted(hashmap.keys())]\<close>\<close>

definition sorted_items :: "hashmap \<Rightarrow> entry list" where
  "sorted_items h = map (\<lambda>key. (key, getitem h key)) (sort (map fst h))"

text \<open>The number of individual values that the multimap holds.\<close>

definition entry_count :: "hashmap \<Rightarrow> nat" where
  "entry_count h = sum_list (map (\<lambda>(k, vs). length vs) h)"

section \<open>GroupByStatement\<close>

record gbs =
  num_files :: nat
  max_num_files :: int
  max_hashmap_entries :: int
  request_id :: "string option"
  max_memory :: int
  spills :: nat
  num_merge_stages :: nat
  total_num_entries :: nat

text \<open>
  \<^verbatim>\<open>GroupByStatement.__init__\<close>. An argument that the caller leaves out is \<open>None\<close>, and
  the default of the signature takes its place.
\<close>

definition GroupByStatement :: "int option \<Rightarrow> int option \<Rightarrow> int option \<Rightarrow> string option \<Rightarrow> gbs" where
  "GroupByStatement max_num_files_arg max_hashmap_entries_arg max_memory_arg request_id_arg =
     \<lparr>num_files = 0,
      max_num_files = (case max_num_files_arg of None \<Rightarrow> 100 | Some m \<Rightarrow> m),
      max_hashmap_entries = (case max_hashmap_entries_arg of None \<Rightarrow> 1000000 | Some m \<Rightarrow> m),
      request_id = request_id_arg,
      max_memory = (case max_memory_arg of None \<Rightarrow> - 1 | Some m \<Rightarrow> m),
      spills = 0, num_merge_stages = 0, total_num_entries = 0\<rparr>"

text \<open>\<^verbatim>\<open>"{}".format(self._request_id)\<close>\<close>

definition format_request_id :: "string option \<Rightarrow> string" where
  "format_request_id r = (case r of None \<Rightarrow> ''None'' | Some s \<Rightarrow> s)"

definition get_dump_filename :: "gbs \<Rightarrow> nat \<Rightarrow> string" where
  "get_dump_filename st index = format_request_id (request_id st) @ ''/dump_'' @ str_int (int index)"

definition get_merge_filename :: "gbs \<Rightarrow> string" where
  "get_merge_filename st = format_request_id (request_id st) @ ''/_merge''"

text \<open>
  \<^verbatim>\<open>_dump_hashmap_to_disk\<close>: the hashmap comes back cleared. The directory of a file
  that is written is taken to exist: \<^verbatim>\<open>groupBy\<close> creates it before any file is written.
\<close>

definition dump_hashmap_to_disk :: "hashmap \<Rightarrow> string \<Rightarrow> gbs \<Rightarrow> fsys \<Rightarrow> hashmap \<times> gbs \<times> fsys" where
  "dump_hashmap_to_disk hashmap filename st fs =
     ([], st\<lparr>num_files := num_files st + 1, spills := spills st + 1\<rparr>,
      write_key_values_to_file (sorted_items hashmap) filename fs)"

subsection \<open>The accumulator\<close>

text \<open>
  The state of the loop of \<^verbatim>\<open>_chunk_input_into_dump_files\<close>: \<open>current_num_entries\<close>,
  \<open>current_hashmap\<close>, the object and the file system. \<open>getsizeof\<close> is \<^verbatim>\<open>sys.getsizeof\<close>,
  which depends on the interpreter.
\<close>

type_synonym chunk_state = "nat \<times> hashmap \<times> gbs \<times> fsys"

text \<open>The spill check at the head of the loop body.\<close>

definition spill_if_full :: "chunk_state \<Rightarrow> chunk_state" where
  "spill_if_full s = (case s of (current_num_entries, current_hashmap, st, fs) \<Rightarrow>
     if int current_num_entries \<ge> max_hashmap_entries st then
       (case dump_hashmap_to_disk current_hashmap (get_dump_filename st (num_files st)) st fs of
          (h', st', fs') \<Rightarrow> (0, h', st', fs'))
     else s)"

text \<open>The rest of the loop body, for the pair \<open>(key, value)\<close>.\<close>

definition insert_pair :: "(pyval \<Rightarrow> int) \<Rightarrow> int \<times> pyval \<Rightarrow> chunk_state \<Rightarrow> (error \<times> fsys) + chunk_state" where
  "insert_pair getsizeof kv s = (case s of (current_num_entries, current_hashmap, st, fs) \<Rightarrow>
     (let key = fst kv; value = snd kv;
          st1 = st\<lparr>total_num_entries := total_num_entries st + 1\<rparr>
      in if max_memory st1 > 0 \<and> total_num_entries st1 = 1 then
           (let kv_size = getsizeof (PyInt key) + getsizeof value
            in if kv_size = 0 then Inl (ZeroDivisionError, fs)
               else Inr (current_num_entries + 1, hashmap_append key (str_of value) current_hashmap,
                         st1\<lparr>max_hashmap_entries := max_memory st1 div kv_size,
                             max_num_files := min 1000 (max_memory st1 div kv_size)\<rparr>, fs))
         else Inr (current_num_entries + 1, hashmap_append key (str_of value) current_hashmap, st1, fs)))"

definition chunk_step :: "(pyval \<Rightarrow> int) \<Rightarrow> int \<times> pyval \<Rightarrow> chunk_state \<Rightarrow> (error \<times> fsys) + chunk_state" where
  "chunk_step getsizeof kv s = insert_pair getsizeof kv (spill_if_full s)"

fun chunk_loop :: "(pyval \<Rightarrow> int) \<Rightarrow> (int \<times> pyval) list \<Rightarrow> chunk_state \<Rightarrow> (error \<times> fsys) + chunk_state" where
  "chunk_loop getsizeof [] s = Inr s"
| "chunk_loop getsizeof (kv # input) s =
     (case chunk_step getsizeof kv s of Inl e \<Rightarrow> Inl e | Inr s' \<Rightarrow> chunk_loop getsizeof input s')"

text \<open>
  \<^verbatim>\<open>_chunk_input_into_dump_files\<close>: the hashmap when nothing was spilled, \<open>None\<close> once the
  last hashmap has been written.
\<close>

definition chunk_input_into_dump_files ::
  "(pyval \<Rightarrow> int) \<Rightarrow> (int \<times> pyval) list \<Rightarrow> gbs \<Rightarrow> fsys \<Rightarrow> (error \<times> fsys) + (hashmap option \<times> gbs \<times> fsys)" where
  "chunk_input_into_dump_files getsizeof input st fs =
     (case chunk_loop getsizeof input (0, [], st, fs) of Inl e \<Rightarrow> Inl e
      | Inr (current_num_entries, current_hashmap, st', fs') \<Rightarrow>
          if num_files st' = 0 then Inr (Some current_hashmap, st', fs')
          else if current_num_entries \<noteq> 0 then
            (case dump_hashmap_to_disk current_hashmap (get_dump_filename st' (num_files st')) st' fs' of
               (h', st'', fs'') \<Rightarrow> Inr (None, st'', fs''))
          else Inr (None, st', fs'))"

subsection \<open>Merging the dump files\<close>

text \<open>\<^verbatim>\<open>range(0, n, m)\<close> for a positive step.\<close>

definition range_step :: "nat \<Rightarrow> nat \<Rightarrow> nat list" where
  "range_step n m = map (\<lambda>j. j * m) [0..<(n + m - 1) div m]"

text \<open>The files of the group that starts at \<open>index\<close>.\<close>

definition group_ids :: "gbs \<Rightarrow> nat \<Rightarrow> nat list" where
  "group_ids st index = [index..<min (num_files st) (index + nat (max_num_files st))]"

text \<open>
  \<^verbatim>\<open>write_key_values_to_file(MergeFileIterator(filename_list), merge_filename)\<close>: the
  iterator is built first, then the \<^verbatim>\<open>for\<close> loop writes what the iterator yields; an error
  other than \<^verbatim>\<open>StopIteration\<close> leaves what was written so far.
\<close>

definition merge_to_file :: "string list \<Rightarrow> string \<Rightarrow> fsys \<Rightarrow> (error \<times> fsys) + fsys" where
  "merge_to_file filename_list merge_filename fs =
     (case MergeFileIterator fs filename_list of Inl e \<Rightarrow> Inl (e, fs)
      | Inr heap \<Rightarrow>
          (case iterate_merge heap of (kvs, r) \<Rightarrow>
             (case r of None \<Rightarrow> Inr (write_key_values_to_file kvs merge_filename fs)
              | Some e \<Rightarrow> Inl (e, write_key_values_to_file kvs merge_filename fs))))"

fun remove_all :: "string list \<Rightarrow> fsys \<Rightarrow> (error \<times> fsys) + fsys" where
  "remove_all [] fs = Inr fs"
| "remove_all (filename # rest) fs =
     (case os_remove filename fs of Inl e \<Rightarrow> Inl (e, fs) | Inr fs' \<Rightarrow> remove_all rest fs')"

text \<open>The body of the \<^verbatim>\<open>for\<close> loop of \<^verbatim>\<open>_merge_dump_files\<close>.\<close>

definition merge_group :: "gbs \<Rightarrow> nat \<Rightarrow> nat \<Rightarrow> fsys \<Rightarrow> (error \<times> fsys) + fsys" where
  "merge_group st index current_merge_file fs =
     (let filename_list = map (get_dump_filename st) (group_ids st index);
          merge_filename = get_merge_filename st;
          dump_filename = get_dump_filename st current_merge_file
      in if length filename_list = 1 then
           (case move (hd filename_list) dump_filename fs of Inl e \<Rightarrow> Inl (e, fs) | Inr fs' \<Rightarrow> Inr fs')
         else
           (case merge_to_file filename_list merge_filename fs of Inl e \<Rightarrow> Inl e
            | Inr fs1 \<Rightarrow>
                (case remove_all filename_list fs1 of Inl e \<Rightarrow> Inl e
                 | Inr fs2 \<Rightarrow>
                     (case move merge_filename dump_filename fs2 of Inl e \<Rightarrow> Inl (e, fs2)
                      | Inr fs3 \<Rightarrow> Inr fs3))))"

fun merge_pass :: "gbs \<Rightarrow> nat list \<Rightarrow> nat \<Rightarrow> fsys \<Rightarrow> (error \<times> fsys) + (nat \<times> fsys)" where
  "merge_pass st [] current_merge_file fs = Inr (current_merge_file, fs)"
| "merge_pass st (index # rest) current_merge_file fs =
     (case merge_group st index current_merge_file fs of Inl e \<Rightarrow> Inl e
      | Inr fs' \<Rightarrow> merge_pass st rest (Suc current_merge_file) fs')"

lemma merge_pass_count:
  "merge_pass st indices cur fs = Inr (cur', fs') \<Longrightarrow> cur' = cur + length indices"
proof (induction indices arbitrary: cur fs)
  case Nil
  then show ?case by simp
next
  case (Cons index rest)
  from Cons.prems obtain fs1 where "merge_group st index cur fs = Inr fs1"
    and "merge_pass st rest (Suc cur) fs1 = Inr (cur', fs')"
    by (auto split: sum.splits)
  with Cons.IH[of "Suc cur" fs1] show ?case by simp
qed

lemma length_range_step: "length (range_step n m) = (n + m - 1) div m"
  by (simp add: range_step_def)

lemma ceil_div_less: "2 \<le> m \<Longrightarrow> m < n \<Longrightarrow> (n + m - 1) div m < (n::nat)"
proof -
  assume m: "2 \<le> m" and n: "m < n"
  have "n + m - 1 < n * m"
  proof -
    have "n + m \<le> n + n" using n by simp
    also have "\<dots> = n * 2" by simp
    also have "\<dots> \<le> n * m" using m by simp
    finally show ?thesis using n by simp
  qed
  then show ?thesis using m by (simp add: div_less_iff_less_mult)
qed

text \<open>
  \<^verbatim>\<open>_merge_dump_files\<close>. \<^verbatim>\<open>raise error_msg\<close> raises a string, which is not an
  exception: Python answers with a \<^verbatim>\<open>TypeError\<close>.
\<close>

function merge_dump_files :: "gbs \<Rightarrow> fsys \<Rightarrow> (error \<times> fsys) + (gbs \<times> fsys)" where
  "merge_dump_files st fs =
     (if int (num_files st) > max_num_files st then
        (if max_num_files st < 2 then
           (case request_id st of None \<Rightarrow> Inl (TypeError, fs)
            | Some rid \<Rightarrow> (case rmtree rid fs of Inl e \<Rightarrow> Inl (e, fs) | Inr fs' \<Rightarrow> Inl (TypeError, fs')))
         else
           (case merge_pass st (range_step (num_files st) (nat (max_num_files st))) 0 fs of
              Inl e \<Rightarrow> Inl e
            | Inr (current_merge_file, fs') \<Rightarrow>
                merge_dump_files
                  (st\<lparr>num_files := current_merge_file, num_merge_stages := num_merge_stages st + 1\<rparr>) fs'))
      else Inr (st, fs))"
  by pat_completeness auto
termination
proof (relation "measure (\<lambda>(st, fs). num_files st)")
  show "wf (measure (\<lambda>(st, fs). num_files st))" by simp
next
  fix st :: gbs and fs :: fsys and x2 x y
  assume a: "max_num_files st < int (num_files st)" "\<not> max_num_files st < 2"
    and b: "merge_pass st (range_step (num_files st) (nat (max_num_files st))) 0 fs = Inr x2" "(x, y) = x2"
  from b have "x = length (range_step (num_files st) (nat (max_num_files st)))"
    using merge_pass_count[of st _ 0 fs x y] by simp
  moreover have "(num_files st + nat (max_num_files st) - 1) div nat (max_num_files st) < num_files st"
    using a by (intro ceil_div_less) auto
  ultimately show "((st\<lparr>num_files := x, num_merge_stages := num_merge_stages st + 1\<rparr>, y), st, fs)
       \<in> measure (\<lambda>(st, fs). num_files st)"
    by (simp add: length_range_step)
qed

declare merge_dump_files.simps [simp del]


section \<open>The result iterators\<close>

record mem_iter =
  mi_hashmap :: hashmap
  mi_iter :: "int list"
  mi_remaining_elements :: int

definition KeyListIteratorFromMemory :: "hashmap \<Rightarrow> mem_iter" where
  "KeyListIteratorFromMemory hashmap =
     \<lparr>mi_hashmap = hashmap, mi_iter = sort (map fst hashmap),
      mi_remaining_elements = int (length (sort (map fst hashmap)))\<rparr>"

definition mem_hasNext :: "mem_iter \<Rightarrow> bool" where
  "mem_hasNext it = (mi_remaining_elements it > 0)"

definition mem_next :: "mem_iter \<Rightarrow> error + (entry \<times> mem_iter)" where
  "mem_next it = (case mi_iter it of [] \<Rightarrow> Inl StopIteration
     | key # keys \<Rightarrow>
         Inr ((key, getitem (mi_hashmap it) key),
              it\<lparr>mi_iter := keys, mi_remaining_elements := mi_remaining_elements it - 1\<rparr>))"

record disk_iter =
  di_request_id :: string
  di_merge_file_iterator :: "heap_item list"

text \<open>The constructor of \<^verbatim>\<open>KeyListIteratorFromDisk\<close> opens the files.\<close>

definition KeyListIteratorFromDisk :: "string \<Rightarrow> string list \<Rightarrow> fsys \<Rightarrow> error + disk_iter" where
  "KeyListIteratorFromDisk rid file_list fs =
     (case MergeFileIterator fs file_list of Inl e \<Rightarrow> Inl e
      | Inr heap \<Rightarrow> Inr \<lparr>di_request_id = rid, di_merge_file_iterator = heap\<rparr>)"

definition disk_hasNext :: "disk_iter \<Rightarrow> bool" where
  "disk_hasNext it = hasNext_merge (di_merge_file_iterator it)"

definition disk_next :: "disk_iter \<Rightarrow> fsys \<Rightarrow> (error \<times> fsys) + ((entry \<times> disk_iter) \<times> fsys)" where
  "disk_next it fs =
     (case merge_next (di_merge_file_iterator it) of Inl e \<Rightarrow> Inl (e, fs)
      | Inr (result, heap') \<Rightarrow>
          (let it' = it\<lparr>di_merge_file_iterator := heap'\<rparr>
           in if \<not> disk_hasNext it' then
                (case rmtree (di_request_id it) fs of Inl e \<Rightarrow> Inl (e, fs)
                 | Inr fs' \<Rightarrow> Inr ((result, it'), fs'))
              else Inr ((result, it'), fs)))"

datatype result_iterator = FromMemory mem_iter | FromDisk disk_iter

fun hasNext :: "result_iterator \<Rightarrow> bool" where
  "hasNext (FromMemory it) = mem_hasNext it"
| "hasNext (FromDisk it) = disk_hasNext it"

fun next_result :: "result_iterator \<Rightarrow> fsys \<Rightarrow> (error \<times> fsys) + ((entry \<times> result_iterator) \<times> fsys)" where
  "next_result (FromMemory it) fs =
     (case mem_next it of Inl e \<Rightarrow> Inl (e, fs) | Inr (kv, it') \<Rightarrow> Inr ((kv, FromMemory it'), fs))"
| "next_result (FromDisk it) fs =
     (case disk_next it fs of Inl e \<Rightarrow> Inl e | Inr ((kv, it'), fs') \<Rightarrow> Inr ((kv, FromDisk it'), fs'))"

fun iter_size :: "result_iterator \<Rightarrow> nat" where
  "iter_size (FromMemory it) = length (mi_iter it)"
| "iter_size (FromDisk it) = heap_size (di_merge_file_iterator it)"

lemma next_result_size:
  "next_result it fs = Inr ((kv, it'), fs') \<Longrightarrow> iter_size it' < iter_size it"
proof (cases it)
  case (FromMemory m)
  assume "next_result it fs = Inr ((kv, it'), fs')"
  with FromMemory show ?thesis
    by (auto simp: mem_next_def split: list.splits)
next
  case (FromDisk d)
  assume "next_result it fs = Inr ((kv, it'), fs')"
  with FromDisk show ?thesis
    by (auto simp: disk_next_def Let_def merge_next_size split: sum.splits if_splits prod.splits)
qed

text \<open>The caller's loop \<^verbatim>\<open>while it.hasNext(): next(it)\<close>, with everything it yields.\<close>

function exhaust :: "result_iterator \<Rightarrow> fsys \<Rightarrow> (error \<times> fsys) + (entry list \<times> fsys)" where
  "exhaust it fs =
     (if hasNext it then
        (case next_result it fs of Inl e \<Rightarrow> Inl e
         | Inr ((kv, it'), fs') \<Rightarrow>
             (case exhaust it' fs' of Inl e \<Rightarrow> Inl e | Inr (kvs, fs'') \<Rightarrow> Inr (kv # kvs, fs'')))
      else Inr ([], fs))"
  by pat_completeness auto
termination
  by (relation "measure (\<lambda>(it, fs). iter_size it)") (auto simp: next_result_size)

declare exhaust.simps [simp del]

section \<open>groupBy\<close>

text \<open>
  The request id: when none is given, or the given one is a directory already, the
  program draws names from the clock and the random generator until one is not a
  directory. \<open>candidates\<close> are the names drawn, in order; \<open>None\<close> when none of them is free.
\<close>

definition resolve_request_id :: "string option \<Rightarrow> string list \<Rightarrow> fsys \<Rightarrow> string option" where
  "resolve_request_id rid candidates fs =
     (if rid = None \<or> isdir fs (the rid) then find (\<lambda>d. \<not> isdir fs d) candidates else rid)"

text \<open>\<^verbatim>\<open>GroupByStatement.groupBy\<close>, from \<^verbatim>\<open>os.mkdir\<close> on. The log file is not modelled.\<close>

definition groupBy_in ::
  "(pyval \<Rightarrow> int) \<Rightarrow> string \<Rightarrow> gbs \<Rightarrow> (int \<times> pyval) list \<Rightarrow> fsys \<Rightarrow>
   (error \<times> fsys) + (result_iterator \<times> gbs \<times> fsys)" where
  "groupBy_in getsizeof rid st0 input fs0 =
     (let st = st0\<lparr>request_id := Some rid\<rparr> in
      case mkdir rid fs0 of Inl e \<Rightarrow> Inl (e, fs0)
      | Inr fs1 \<Rightarrow>
          (case chunk_input_into_dump_files getsizeof input st fs1 of Inl e \<Rightarrow> Inl e
           | Inr (result, st2, fs2) \<Rightarrow>
               (case result of
                  Some hashmap \<Rightarrow>
                    (case rmtree rid fs2 of Inl e \<Rightarrow> Inl (e, fs2)
                     | Inr fs3 \<Rightarrow> Inr (FromMemory (KeyListIteratorFromMemory hashmap), st2, fs3))
                | None \<Rightarrow>
                    (case merge_dump_files st2 fs2 of Inl e \<Rightarrow> Inl e
                     | Inr (st3, fs3) \<Rightarrow>
                         (case KeyListIteratorFromDisk rid
                                 (map (get_dump_filename st3) [0..<num_files st3]) fs3 of
                            Inl e \<Rightarrow> Inl (e, fs3)
                          | Inr it \<Rightarrow> Inr (FromDisk it, st3, fs3))))))"

text \<open>
  \<^verbatim>\<open>GroupByStatement.groupBy\<close>. The outer \<open>None\<close>: the loop that draws request ids
  did not find a free name among the candidates.
\<close>

definition groupBy ::
  "(pyval \<Rightarrow> int) \<Rightarrow> string list \<Rightarrow> gbs \<Rightarrow> (int \<times> pyval) list \<Rightarrow> fsys \<Rightarrow>
   ((error \<times> fsys) + (result_iterator \<times> gbs \<times> fsys)) option" where
  "groupBy getsizeof candidates st input fs =
     (let st0 = st\<lparr>num_files := 0, total_num_entries := 0, spills := 0, num_merge_stages := 0\<rparr> in
      if input = [] then Some (Inr (FromMemory (KeyListIteratorFromMemory []), st0, fs))
      else (case resolve_request_id (request_id st0) candidates fs of None \<Rightarrow> None
            | Some rid \<Rightarrow> Some (groupBy_in getsizeof rid st0 input fs)))"

text \<open>
  The module-level \<^verbatim>\<open>groupBy\<close>: an argument that the caller leaves out is \<open>None\<close>.
\<close>

definition groupBy_entry ::
  "(pyval \<Rightarrow> int) \<Rightarrow> string list \<Rightarrow> (int \<times> pyval) list \<Rightarrow>
   int option \<Rightarrow> int option \<Rightarrow> int option \<Rightarrow> string option \<Rightarrow> fsys \<Rightarrow>
   ((error \<times> fsys) + (result_iterator \<times> gbs \<times> fsys)) option" where
  "groupBy_entry getsizeof candidates input max_num_files_arg max_hashmap_entries_arg
       max_memory_arg request_id_arg fs =
     (let g = GroupByStatement
                (Some (case max_num_files_arg of None \<Rightarrow> 1000 | Some m \<Rightarrow> m))
                (Some (case max_hashmap_entries_arg of None \<Rightarrow> 10000000 | Some m \<Rightarrow> m))
                (Some (case max_memory_arg of None \<Rightarrow> - 1 | Some m \<Rightarrow> m))
                request_id_arg
      in groupBy getsizeof candidates g input fs)"


section \<open>The reference grouping\<close>

text \<open>
  The grouping that \<^verbatim>\<open>compute_hashmap\<close> of the tests computes: the keys in ascending
  order, each with its values in the order of the stream.
\<close>

definition values_for :: "int \<Rightarrow> (int \<times> string) list \<Rightarrow> string list" where
  "values_for k ps = map snd (filter (\<lambda>p. fst p = k) ps)"

definition group_ref :: "(int \<times> string) list \<Rightarrow> entry list" where
  "group_ref ps = map (\<lambda>k. (k, values_for k ps)) (sorted_list_of_set (fst ` set ps))"

text \<open>The hashmap \<open>h\<close> holds exactly the pairs \<open>ps\<close>.\<close>

definition holds :: "hashmap \<Rightarrow> (int \<times> string) list \<Rightarrow> bool" where
  "holds h ps = (distinct (map fst h) \<and> set (map fst h) = fst ` set ps \<and>
     (\<forall>k. getitem h k = values_for k ps))"

lemma keys_hashmap_append: "set (map fst (hashmap_append k v h)) = insert k (set (map fst h))"
proof (induction h)
  case Nil
  then show ?case by simp
next
  case (Cons a h)
  obtain k' vs where a: "a = (k', vs)" by (cases a)
  show ?case
  proof (cases "k' = k")
    case True
    with a show ?thesis by simp
  next
    case False
    with a Cons show ?thesis by (simp add: insert_commute)
  qed
qed

lemma distinct_hashmap_append: "distinct (map fst h) \<Longrightarrow> distinct (map fst (hashmap_append k v h))"
proof (induction h)
  case Nil then show ?case by simp
next
  case (Cons a h)
  obtain k' vs where a: "a = (k', vs)" by (cases a)
  have "set (map fst (hashmap_append k v h)) = insert k (set (map fst h))"
    by (rule keys_hashmap_append)
  with Cons a show ?case by auto
qed

lemma getitem_hashmap_append:
  "getitem (hashmap_append k v h) k' = (if k' = k then getitem h k @ [v] else getitem h k')"
  by (induction h) (auto simp: getitem_def)

lemma holds_empty: "holds [] []"
  by (simp add: holds_def getitem_def values_for_def)

lemma holds_append: "holds h ps \<Longrightarrow> holds (hashmap_append k v h) (ps @ [(k, v)])"
  unfolding holds_def
  by (auto simp: distinct_hashmap_append keys_hashmap_append getitem_hashmap_append values_for_def
           simp del: set_map)

lemma sorted_items_holds: "holds h ps \<Longrightarrow> sorted_items h = group_ref ps"
proof -
  assume a: "holds h ps"
  then have d: "distinct (map fst h)" and s: "set (map fst h) = fst ` set ps"
    and g: "\<And>k. getitem h k = values_for k ps" by (auto simp: holds_def)
  have "sort (map fst h) = sorted_list_of_set (fst ` set ps)"
    using d s by (metis sorted_list_of_set_sort_remdups distinct_remdups_id)
  then show ?thesis by (simp add: sorted_items_def group_ref_def g)
qed

lemma entry_count_hashmap_append: "entry_count (hashmap_append k v h) = Suc (entry_count h)"
  by (induction h) (auto simp: entry_count_def)

subsection \<open>The reference grouping as a run\<close>

lemma keys_group_ref: "map fst (group_ref ps) = sorted_list_of_set (fst ` set ps)"
  by (simp add: group_ref_def comp_def)

lemma set_keys_group_ref: "fst ` set (group_ref ps) = fst ` set ps"
proof -
  have "fst ` set (group_ref ps) = set (map fst (group_ref ps))" by simp
  also have "\<dots> = fst ` set ps" unfolding keys_group_ref by simp
  finally show ?thesis .
qed

lemma sorted_group_ref: "sorted_wrt (<) (map fst (group_ref ps))"
  unfolding keys_group_ref by simp

lemma wf_run_group_ref: "\<forall>p \<in> set ps. token (snd p) \<Longrightarrow> wf_run (group_ref ps)"
  unfolding wf_run_def
proof (intro conjI ballI)
  show "sorted_wrt (<) (map fst (group_ref ps))" by (rule sorted_group_ref)
next
  fix e v assume a: "\<forall>p \<in> set ps. token (snd p)" and e: "e \<in> set (group_ref ps)" and v: "v \<in> set (snd e)"
  from e v obtain k where "v \<in> set (values_for k ps)" by (auto simp: group_ref_def)
  with a show "token v" by (auto simp: values_for_def)
qed

lemma group_ref_Nil_iff: "group_ref ps = [] \<longleftrightarrow> ps = []"
proof
  assume "group_ref ps = []"
  then have "fst ` set ps = {}" using set_keys_group_ref[of ps] by simp
  then show "ps = []" by simp
next
  assume "ps = []" then show "group_ref ps = []" by (simp add: group_ref_def)
qed

lemma vals_in_group_ref: "vals_in k (group_ref ps) = values_for k ps"
proof (cases "k \<in> fst ` set ps")
  case True
  have d: "distinct (map fst (group_ref ps))" unfolding keys_group_ref by simp
  have "(k, values_for k ps) \<in> set (group_ref ps)" using True by (auto simp: group_ref_def)
  with d have "map_of (group_ref ps) k = Some (values_for k ps)" by (rule map_of_is_SomeI)
  then show ?thesis by (simp add: vals_in_def)
next
  case False
  then have "k \<notin> fst ` set (group_ref ps)" by (simp add: set_keys_group_ref)
  then have "map_of (group_ref ps) k = None" by (simp add: map_of_eq_None_iff)
  moreover have "values_for k ps = []" using False by (force simp: values_for_def filter_empty_conv)
  ultimately show ?thesis by (simp add: vals_in_def)
qed

lemma values_for_concat: "values_for k (concat cs) = concat (map (values_for k) cs)"
  by (induction cs) (auto simp: values_for_def)

lemma merge_spec_group_ref: "merge_spec (map group_ref cs) = group_ref (concat cs)"
proof -
  have "(\<Union>r \<in> set (map group_ref cs). fst ` set r) = fst ` set (concat cs)"
    by (auto simp: set_keys_group_ref)
  moreover have "concat (map (vals_in k) (map group_ref cs)) = values_for k (concat cs)" for k
    by (simp add: values_for_concat comp_def vals_in_group_ref)
  ultimately show ?thesis by (simp add: merge_spec_def group_ref_def)
qed


section \<open>File names\<close>

lemma str_int_inj: "str_int a = str_int b \<Longrightarrow> a = b"
proof -
  assume "str_int a = str_int b"
  then have "int_of_str (str_int a @ [newline]) = int_of_str (str_int b @ [newline])" by simp
  then show ?thesis by (simp add: int_of_str_str_int)
qed

lemma dump_filename_inj [simp]: "get_dump_filename st i = get_dump_filename st j \<longleftrightarrow> i = j"
  by (auto simp: get_dump_filename_def dest: str_int_inj)

lemma dump_not_merge [simp]: "get_dump_filename st i \<noteq> get_merge_filename st"
  by (simp add: get_dump_filename_def get_merge_filename_def)

lemma merge_not_dump [simp]: "get_merge_filename st \<noteq> get_dump_filename st i"
  by (simp add: get_dump_filename_def get_merge_filename_def)

lemma dump_filename_cong:
  "request_id st' = request_id st \<Longrightarrow> get_dump_filename st' = get_dump_filename st"
  by (rule ext) (simp add: get_dump_filename_def)

lemma merge_filename_cong:
  "request_id st' = request_id st \<Longrightarrow> get_merge_filename st' = get_merge_filename st"
  by (simp add: get_merge_filename_def)

lemma in_dir_dump: "request_id st = Some rid \<Longrightarrow> in_dir rid (get_dump_filename st i)"
  by (simp add: in_dir_def get_dump_filename_def format_request_id_def)

section \<open>One group of a merge pass\<close>

lemma push_first_keys_nonempty:
  "\<forall>r \<in> set Rs. wf_run r \<Longrightarrow> push_first_keys n (map run_text Rs) h0 = Inr h \<Longrightarrow> \<forall>r \<in> set Rs. r \<noteq> []"
proof (induction Rs arbitrary: n h0)
  case Nil then show ?case by simp
next
  case (Cons r Rs)
  show ?case
  proof (cases r)
    case Nil
    with Cons.prems(2) show ?thesis by (simp add: readline_run_text_Nil)
  next
    case (Cons e rest)
    with Cons.prems(1) have te: "\<forall>v \<in> set (snd e). token v" by (auto simp: wf_run_def)
    from Cons.prems(2) have "push_first_keys (Suc n) (map run_text Rs) (heappush h0 (fst e, n, pending r)) = Inr h"
      using Cons by (simp add: readline_run_text_Cons[OF te] int_of_str_str_int)
    with Cons.IH[of "Suc n"] Cons.prems(1) have "\<forall>r \<in> set Rs. r \<noteq> []" by simp
    with Cons show ?thesis by simp
  qed
qed

lemma MergeFileIterator_nonempty:
  assumes "list_all2 (\<lambda>p r. files fs p = Some (run_text r) \<and> wf_run r) ps Rs"
    and "MergeFileIterator fs ps = Inr h"
  shows "\<forall>r \<in> set Rs. r \<noteq> []"
proof -
  have wf: "\<forall>r \<in> set Rs. wf_run r"
    using assms(1) by (auto simp: list_all2_conv_all_nth in_set_conv_nth)
  from assms(2) open_all_runs[OF assms(1)]
  have "push_first_keys 0 (map run_text Rs) [] = Inr h" by (simp add: MergeFileIterator_def)
  with wf show ?thesis by (rule push_first_keys_nonempty)
qed

lemma remove_all_existing:
  "distinct ps \<Longrightarrow> \<forall>p \<in> set ps. files fs p \<noteq> None \<Longrightarrow>
   remove_all ps fs = Inr (fs\<lparr>files := (\<lambda>p. if p \<in> set ps then None else files fs p)\<rparr>)"
proof (induction ps arbitrary: fs)
  case Nil then show ?case by simp
next
  case (Cons p ps)
  then obtain c where c: "files fs p = Some c" by auto
  let ?fs = "fs\<lparr>files := (files fs)(p := None)\<rparr>"
  have "remove_all ps ?fs = Inr (?fs\<lparr>files := (\<lambda>q. if q \<in> set ps then None else files ?fs q)\<rparr>)"
    using Cons.prems by (intro Cons.IH) auto
  moreover have "(\<lambda>q. if q \<in> set ps then None else files ?fs q) = (\<lambda>q. if q \<in> set (p # ps) then None else files fs q)"
    by (rule ext) simp
  ultimately show ?case using c by (simp add: os_remove_def)
qed

text \<open>The text that the merge of the files of a group writes.\<close>

lemma merge_to_file_runs:
  assumes "list_all2 (\<lambda>p r. files fs p = Some (run_text r) \<and> wf_run r) ps Rs"
  shows "merge_to_file ps mf fs = Inr fs' \<Longrightarrow>
           fs' = write_key_values_to_file (merge_spec Rs) mf fs \<and> (\<forall>r \<in> set Rs. r \<noteq> [])"
    and "\<forall>r \<in> set Rs. r \<noteq> [] \<Longrightarrow>
           merge_to_file ps mf fs = Inr (write_key_values_to_file (merge_spec Rs) mf fs)"
proof -
  have ok: "merge_to_file ps mf fs = Inr (write_key_values_to_file (merge_spec Rs) mf fs)"
    if ne: "\<forall>r \<in> set Rs. r \<noteq> []"
  proof -
    from MergeFileIterator_runs[OF assms ne]
    obtain h where h: "MergeFileIterator fs ps = Inr h" "heap_inv h Rs" by blast
    from merge_correct[OF h(2)] have "iterate_merge h = (merge_spec Rs, None)" by simp
    with h(1) show ?thesis by (simp add: merge_to_file_def)
  qed
  show "\<forall>r \<in> set Rs. r \<noteq> [] \<Longrightarrow>
           merge_to_file ps mf fs = Inr (write_key_values_to_file (merge_spec Rs) mf fs)"
    by (rule ok)
  assume a: "merge_to_file ps mf fs = Inr fs'"
  then obtain h where "MergeFileIterator fs ps = Inr h"
    by (auto simp: merge_to_file_def split: sum.splits)
  from MergeFileIterator_nonempty[OF assms this] have ne: "\<forall>r \<in> set Rs. r \<noteq> []" .
  with ok a show "fs' = write_key_values_to_file (merge_spec Rs) mf fs \<and> (\<forall>r \<in> set Rs. r \<noteq> [])"
    by simp
qed


text \<open>The dump file of index \<open>i\<close> holds the grouping of the chunk \<open>c\<close> of the input.\<close>

definition disk_run :: "gbs \<Rightarrow> fsys \<Rightarrow> nat \<Rightarrow> (int \<times> string) list \<Rightarrow> bool" where
  "disk_run st fs i c = (files fs (get_dump_filename st i) = Some (run_text (group_ref c)))"

definition tokens :: "(int \<times> string) list \<Rightarrow> bool" where
  "tokens ps = (\<forall>p \<in> set ps. token (snd p))"

lemma merge_group_runs:
  assumes tok: "\<forall>c \<in> set cs. tokens c"
    and n: "num_files st = length cs"
    and a: "a < length cs"
    and src: "\<forall>i \<in> set (group_ids st a). disk_run st fs i (cs ! i)"
  shows "merge_group st a j fs = Inr fs' \<Longrightarrow>
           disk_run st fs' j (concat (map ((!) cs) (group_ids st a))) \<and>
           (\<forall>i. i \<noteq> j \<longrightarrow> i \<notin> set (group_ids st a) \<longrightarrow>
                files fs' (get_dump_filename st i) = files fs (get_dump_filename st i)) \<and>
           dirs fs' = dirs fs \<and>
           (length (group_ids st a) \<noteq> 1 \<longrightarrow> (\<forall>i \<in> set (group_ids st a). cs ! i \<noteq> []))"
    and "\<forall>i \<in> set (group_ids st a). cs ! i \<noteq> [] \<Longrightarrow> \<exists>fs'. merge_group st a j fs = Inr fs'"
proof -
  let ?ids = "group_ids st a"
  let ?ps = "map (get_dump_filename st) ?ids"
  let ?Rs = "map (\<lambda>i. group_ref (cs ! i)) ?ids"
  let ?mf = "get_merge_filename st"
  let ?dj = "get_dump_filename st j"
  have ids_lt: "\<forall>i \<in> set ?ids. i < length cs" using n by (auto simp: group_ids_def)
  have la: "list_all2 (\<lambda>p r. files fs p = Some (run_text r) \<and> wf_run r) ?ps ?Rs"
    unfolding list_all2_conv_all_nth
  proof (intro conjI allI impI)
    show "length ?ps = length ?Rs" by simp
  next
    fix k assume "k < length ?ps"
    then have k: "k < length ?ids" by simp
    then have in_ids: "?ids ! k \<in> set ?ids" by simp
    with src have "disk_run st fs (?ids ! k) (cs ! (?ids ! k))" by blast
    then show "files fs (?ps ! k) = Some (run_text (?Rs ! k))" using k by (simp add: disk_run_def)
    from in_ids ids_lt have "cs ! (?ids ! k) \<in> set cs" by simp
    with tok show "wf_run (?Rs ! k)" using k by (simp add: wf_run_group_ref tokens_def)
  qed
  have spec: "merge_spec ?Rs = group_ref (concat (map ((!) cs) ?ids))"
    using merge_spec_group_ref[of "map ((!) cs) ?ids"] by (simp add: comp_def)
  have dist: "distinct ?ps" by (simp add: distinct_map inj_on_def group_ids_def)
  show "merge_group st a j fs = Inr fs' \<Longrightarrow>
           disk_run st fs' j (concat (map ((!) cs) ?ids)) \<and>
           (\<forall>i. i \<noteq> j \<longrightarrow> i \<notin> set ?ids \<longrightarrow>
                files fs' (get_dump_filename st i) = files fs (get_dump_filename st i)) \<and>
           dirs fs' = dirs fs \<and>
           (length ?ids \<noteq> 1 \<longrightarrow> (\<forall>i \<in> set ?ids. cs ! i \<noteq> []))"
  proof (cases "length ?ids = 1")
    case True
    then obtain i0 where i0: "?ids = [i0]" by (cases ?ids) auto
    assume "merge_group st a j fs = Inr fs'"
    with True i0 have mv: "move (get_dump_filename st i0) ?dj fs = Inr fs'"
      by (auto simp: merge_group_def Let_def split: sum.splits)
    from src i0 have "disk_run st fs i0 (cs ! i0)" by simp
    with mv show ?thesis using i0 True
      by (auto simp: move_def disk_run_def split: option.splits)
  next
    case False
    assume mg: "merge_group st a j fs = Inr fs'"
    with False obtain fs1 fs2 where m1: "merge_to_file ?ps ?mf fs = Inr fs1"
      and r2: "remove_all ?ps fs1 = Inr fs2" and m3: "move ?mf ?dj fs2 = Inr fs'"
      by (auto simp: merge_group_def Let_def split: sum.splits)
    from merge_to_file_runs(1)[OF la m1]
    have fs1: "fs1 = write_key_values_to_file (merge_spec ?Rs) ?mf fs" and ne: "\<forall>r \<in> set ?Rs. r \<noteq> []"
      by auto
    have ex1: "\<forall>p \<in> set ?ps. files fs1 p \<noteq> None"
      using src by (auto simp: fs1 write_key_values_to_file_def disk_run_def)
    from remove_all_existing[OF dist ex1] r2
    have fs2: "fs2 = fs1\<lparr>files := (\<lambda>p. if p \<in> set ?ps then None else files fs1 p)\<rparr>" by simp
    have mfin: "?mf \<notin> set ?ps" by auto
    have "files fs2 ?mf = Some (run_text (merge_spec ?Rs))"
      using mfin by (simp add: fs2 fs1 write_key_values_to_file_def)
    with m3 have fs': "fs' = fs2\<lparr>files := ((files fs2)(?mf := None))(?dj \<mapsto> run_text (merge_spec ?Rs))\<rparr>"
      by (simp add: move_def)
    have "disk_run st fs' j (concat (map ((!) cs) ?ids))"
      by (simp add: fs' disk_run_def spec)
    moreover have "\<forall>i. i \<noteq> j \<longrightarrow> i \<notin> set ?ids \<longrightarrow>
                files fs' (get_dump_filename st i) = files fs (get_dump_filename st i)"
      by (auto simp: fs' fs2 fs1 write_key_values_to_file_def)
    moreover have "dirs fs' = dirs fs" by (simp add: fs' fs2 fs1 write_key_values_to_file_def)
    moreover have "\<forall>i \<in> set ?ids. cs ! i \<noteq> []" using ne by (auto simp: group_ref_Nil_iff)
    ultimately show ?thesis by blast
  qed
  show "\<exists>fs'. merge_group st a j fs = Inr fs'" if ne: "\<forall>i \<in> set ?ids. cs ! i \<noteq> []"
  proof (cases "length ?ids = 1")
    case True
    then obtain i0 where i0: "?ids = [i0]" by (cases ?ids) auto
    from src i0 have "disk_run st fs i0 (cs ! i0)" by simp
    then show ?thesis using True i0
      by (simp add: merge_group_def Let_def move_def disk_run_def)
  next
    case False
    have ne': "\<forall>r \<in> set ?Rs. r \<noteq> []" using ne by (auto simp: group_ref_Nil_iff)
    let ?fs1 = "write_key_values_to_file (merge_spec ?Rs) ?mf fs"
    have m1: "merge_to_file ?ps ?mf fs = Inr ?fs1" by (rule merge_to_file_runs(2)[OF la ne'])
    have ex1: "\<forall>p \<in> set ?ps. files ?fs1 p \<noteq> None"
      using src by (auto simp: write_key_values_to_file_def disk_run_def)
    let ?fs2 = "?fs1\<lparr>files := (\<lambda>p. if p \<in> set ?ps then None else files ?fs1 p)\<rparr>"
    have r2: "remove_all ?ps ?fs1 = Inr ?fs2" by (rule remove_all_existing[OF dist ex1])
    have mfin: "?mf \<notin> set ?ps" by auto
    have "files ?fs2 ?mf = Some (run_text (merge_spec ?Rs))"
      using mfin by (simp add: write_key_values_to_file_def)
    then have "\<exists>fs'. move ?mf ?dj ?fs2 = Inr fs'" by (simp add: move_def)
    with False m1 r2 show ?thesis
      by (auto simp: merge_group_def Let_def)
  qed
qed


section \<open>One merge pass\<close>

text \<open>The chunk of the input that group \<open>j\<close> of a pass covers.\<close>

definition group_chunk :: "gbs \<Rightarrow> (int \<times> string) list list \<Rightarrow> nat \<Rightarrow> (int \<times> string) list" where
  "group_chunk st cs j = concat (map ((!) cs) (group_ids st (j * nat (max_num_files st))))"

lemma ceil_div_index: "1 \<le> m \<Longrightarrow> j < (n + m - 1) div m \<Longrightarrow> j * m < (n::nat)"
proof -
  assume m: "1 \<le> m" and j: "j < (n + m - 1) div m"
  then have "Suc j \<le> (n + m - 1) div m" by simp
  then have "Suc j * m \<le> n + m - 1" using m by (simp add: less_eq_div_iff_mult_less_eq)
  then show ?thesis using m by simp
qed

lemma ceil_div_cover: "1 \<le> m \<Longrightarrow> (n::nat) \<le> ((n + m - 1) div m) * m"
proof -
  assume m: "1 \<le> m"
  have "n + m - 1 = ((n + m - 1) div m) * m + (n + m - 1) mod m" by simp
  moreover have "(n + m - 1) mod m < m" using m by simp
  ultimately show ?thesis by linarith
qed

lemma merge_pass_step:
  assumes tok: "\<forall>c \<in> set cs. tokens c"
    and n: "num_files st = length cs"
    and m: "1 \<le> max_num_files st"
    and jG: "j < (length cs + nat (max_num_files st) - 1) div nat (max_num_files st)"
    and dn: "\<forall>i < j. disk_run st fs i (group_chunk st cs i)"
    and td: "\<forall>i. j * nat (max_num_files st) \<le> i \<and> i < length cs \<longrightarrow> disk_run st fs i (cs ! i)"
  shows "j * nat (max_num_files st) < length cs"
    and "group_ids st (j * nat (max_num_files st)) =
           [j * nat (max_num_files st)..<min (length cs) (j * nat (max_num_files st) + nat (max_num_files st))]"
    and "\<forall>i \<in> set (group_ids st (j * nat (max_num_files st))). disk_run st fs i (cs ! i)"
    and "merge_group st (j * nat (max_num_files st)) j fs = Inr fs1 \<Longrightarrow>
           (\<forall>i < Suc j. disk_run st fs1 i (group_chunk st cs i)) \<and>
           (\<forall>i. Suc j * nat (max_num_files st) \<le> i \<and> i < length cs \<longrightarrow> disk_run st fs1 i (cs ! i)) \<and>
           dirs fs1 = dirs fs"
proof -
  define m where "m = nat (max_num_files st)"
  have m1: "1 \<le> m" using m by (simp add: m_def)
  let ?a = "j * m"
  show a: "j * nat (max_num_files st) < length cs"
    using ceil_div_index[OF m1, of j "length cs"] jG by (simp add: m_def)
  show ids: "group_ids st (j * nat (max_num_files st)) =
           [j * nat (max_num_files st)..<min (length cs) (j * nat (max_num_files st) + nat (max_num_files st))]"
    by (simp add: group_ids_def n)
  show src: "\<forall>i \<in> set (group_ids st (j * nat (max_num_files st))). disk_run st fs i (cs ! i)"
    using td by (simp add: ids)
  assume mg: "merge_group st (j * nat (max_num_files st)) j fs = Inr fs1"
  from merge_group_runs(1)[OF tok n a src mg]
  have r: "disk_run st fs1 j (group_chunk st cs j)"
    and same: "\<forall>i. i \<noteq> j \<longrightarrow> i \<notin> set (group_ids st ?a) \<longrightarrow>
            files fs1 (get_dump_filename st i) = files fs (get_dump_filename st i)"
    and d: "dirs fs1 = dirs fs"
    by (simp_all add: group_chunk_def m_def)
  have ids': "group_ids st ?a = [?a..<min (length cs) (?a + m)]" using ids by (simp add: m_def)
  have jle: "j \<le> ?a" using m1 by simp
  have "disk_run st fs1 i (group_chunk st cs i)" if "i < Suc j" for i
  proof (cases "i = j")
    case True with r show ?thesis by simp
  next
    case False
    with that have ij: "i < j" by simp
    with jle have "i < ?a" by linarith
    then have "i \<notin> set (group_ids st ?a)" by (simp add: ids')
    with same False have "files fs1 (get_dump_filename st i) = files fs (get_dump_filename st i)" by simp
    with dn ij show ?thesis by (simp add: disk_run_def)
  qed
  moreover have "disk_run st fs1 i (cs ! i)" if "Suc j * m \<le> i \<and> i < length cs" for i
  proof -
    from that have am: "?a + m \<le> i" by simp
    then have notin: "i \<notin> set (group_ids st ?a)" by (simp add: ids')
    have "j < i" using am jle m1 by linarith
    with same notin have "files fs1 (get_dump_filename st i) = files fs (get_dump_filename st i)" by simp
    moreover have "disk_run st fs i (cs ! i)" using td that by (simp add: m_def)
    ultimately show ?thesis by (simp add: disk_run_def)
  qed
  ultimately show "(\<forall>i < Suc j. disk_run st fs1 i (group_chunk st cs i)) \<and>
           (\<forall>i. Suc j * nat (max_num_files st) \<le> i \<and> i < length cs \<longrightarrow> disk_run st fs1 i (cs ! i)) \<and>
           dirs fs1 = dirs fs"
    using d by (simp add: m_def)
qed

lemma merge_pass_runs:
  assumes tok: "\<forall>c \<in> set cs. tokens c"
    and n: "num_files st = length cs"
    and m: "1 \<le> max_num_files st"
    and G: "G = (length cs + nat (max_num_files st) - 1) div nat (max_num_files st)"
  shows "j \<le> G \<Longrightarrow> \<forall>i < j. disk_run st fs i (group_chunk st cs i) \<Longrightarrow>
         \<forall>i. j * nat (max_num_files st) \<le> i \<and> i < length cs \<longrightarrow> disk_run st fs i (cs ! i) \<Longrightarrow>
         merge_pass st (map (\<lambda>j. j * nat (max_num_files st)) [j..<G]) j fs = Inr (cur, fs') \<Longrightarrow>
           cur = G \<and> (\<forall>i < G. disk_run st fs' i (group_chunk st cs i)) \<and> dirs fs' = dirs fs"
proof (induction "G - j" arbitrary: j fs)
  case 0
  then show ?case by simp
next
  case (Suc k)
  from Suc.hyps(2) have jG: "j < G" by simp
  then have up: "[j..<G] = j # [Suc j..<G]" by (simp add: upt_conv_Cons)
  from Suc.prems(4) obtain fs1 where mg: "merge_group st (j * nat (max_num_files st)) j fs = Inr fs1"
    and rest: "merge_pass st (map (\<lambda>j. j * nat (max_num_files st)) [Suc j..<G]) (Suc j) fs1 = Inr (cur, fs')"
    unfolding up by (auto split: sum.splits)
  from merge_pass_step(4)[OF tok n m jG[unfolded G] Suc.prems(2) Suc.prems(3) mg]
  have dn': "\<forall>i < Suc j. disk_run st fs1 i (group_chunk st cs i)"
    and td': "\<forall>i. Suc j * nat (max_num_files st) \<le> i \<and> i < length cs \<longrightarrow> disk_run st fs1 i (cs ! i)"
    and d: "dirs fs1 = dirs fs" by auto
  have k: "k = G - Suc j" using Suc.hyps(2) by simp
  have "Suc j \<le> G" using jG by simp
  from Suc.hyps(1)[OF k this dn' td' rest] d show ?case by simp
qed

lemma merge_pass_succeeds:
  assumes tok: "\<forall>c \<in> set cs. tokens c"
    and n: "num_files st = length cs"
    and m: "1 \<le> max_num_files st"
    and G: "G = (length cs + nat (max_num_files st) - 1) div nat (max_num_files st)"
    and ne: "\<forall>c \<in> set cs. c \<noteq> []"
  shows "j \<le> G \<Longrightarrow> \<forall>i < j. disk_run st fs i (group_chunk st cs i) \<Longrightarrow>
         \<forall>i. j * nat (max_num_files st) \<le> i \<and> i < length cs \<longrightarrow> disk_run st fs i (cs ! i) \<Longrightarrow>
         \<exists>fs'. merge_pass st (map (\<lambda>j. j * nat (max_num_files st)) [j..<G]) j fs = Inr (G, fs')"
proof (induction "G - j" arbitrary: j fs)
  case 0
  then show ?case by simp
next
  case (Suc k)
  from Suc.hyps(2) have jG: "j < G" by simp
  then have up: "[j..<G] = j # [Suc j..<G]" by (simp add: upt_conv_Cons)
  note st = merge_pass_step[OF tok n m jG[unfolded G] Suc.prems(2) Suc.prems(3)]
  have "\<forall>i \<in> set (group_ids st (j * nat (max_num_files st))). cs ! i \<noteq> []"
    using ne by (simp add: st(2))
  from merge_group_runs(2)[OF tok n st(1) st(3) this]
  obtain fs1 where mg: "merge_group st (j * nat (max_num_files st)) j fs = Inr fs1" by blast
  from st(4)[OF mg]
  have dn': "\<forall>i < Suc j. disk_run st fs1 i (group_chunk st cs i)"
    and td': "\<forall>i. Suc j * nat (max_num_files st) \<le> i \<and> i < length cs \<longrightarrow> disk_run st fs1 i (cs ! i)"
    by auto
  have k: "k = G - Suc j" using Suc.hyps(2) by simp
  have "Suc j \<le> G" using jG by simp
  from Suc.hyps(1)[OF k this dn' td']
  obtain fs' where "merge_pass st (map (\<lambda>j. j * nat (max_num_files st)) [Suc j..<G]) (Suc j) fs1 = Inr (G, fs')"
    by blast
  with mg show ?case unfolding up by auto
qed


section \<open>The merge loop\<close>

lemma dump_filename_update [simp]:
  "get_dump_filename (st\<lparr>num_files := a\<rparr>) = get_dump_filename st"
  "get_dump_filename (st\<lparr>num_merge_stages := b\<rparr>) = get_dump_filename st"
  "get_dump_filename (st\<lparr>spills := c\<rparr>) = get_dump_filename st"
  "get_dump_filename (st\<lparr>total_num_entries := d\<rparr>) = get_dump_filename st"
  "get_dump_filename (st\<lparr>max_hashmap_entries := e\<rparr>) = get_dump_filename st"
  "get_dump_filename (st\<lparr>max_num_files := f\<rparr>) = get_dump_filename st"
  by (rule ext, simp add: get_dump_filename_def)+

definition runs_on_disk :: "gbs \<Rightarrow> fsys \<Rightarrow> (int \<times> string) list list \<Rightarrow> bool" where
  "runs_on_disk st fs cs = (num_files st = length cs \<and> (\<forall>i < length cs. disk_run st fs i (cs ! i)))"

text \<open>The chunks after one pass.\<close>

definition regroup :: "gbs \<Rightarrow> (int \<times> string) list list \<Rightarrow> (int \<times> string) list list" where
  "regroup st cs = map (group_chunk st cs)
     [0..<(length cs + nat (max_num_files st) - 1) div nat (max_num_files st)]"

lemma concat_map_concat: "concat (map concat xss) = concat (concat xss)"
  by (induction xss) auto

lemma segments_concat:
  "concat (map (\<lambda>i. take m (drop (i * m) xs)) [0..<G]) = take (G * m) xs"
proof (induction G)
  case 0 then show ?case by simp
next
  case (Suc G)
  have "take (Suc G * m) xs = take (G * m) xs @ take m (drop (G * m) xs)"
    using take_add[of "G * m" m xs] by (simp add: add.commute)
  with Suc show ?case by simp
qed

lemma group_chunk_segment:
  assumes "num_files st = length cs"
  shows "group_chunk st cs j = concat (take (nat (max_num_files st)) (drop (j * nat (max_num_files st)) cs))"
proof -
  let ?m = "nat (max_num_files st)"
  let ?a = "j * ?m"
  have "map ((!) cs) [?a..<min (length cs) (?a + ?m)] = drop ?a (take (min (length cs) (?a + ?m)) cs)"
    by (rule nth_equalityI) (auto simp: min_def)
  also have "\<dots> = take ?m (drop ?a cs)"
    by (simp add: drop_take min_def take_all)
  finally show ?thesis using assms by (simp add: group_chunk_def group_ids_def)
qed

lemma concat_regroup:
  assumes "num_files st = length cs" "1 \<le> max_num_files st"
  shows "concat (regroup st cs) = concat cs"
proof -
  let ?m = "nat (max_num_files st)"
  let ?G = "(length cs + ?m - 1) div ?m"
  have m1: "1 \<le> ?m" using assms(2) by simp
  have "group_chunk st cs = (\<lambda>j. concat (take ?m (drop (j * ?m) cs)))"
    by (rule ext) (rule group_chunk_segment[OF assms(1)])
  then have "concat (regroup st cs) = concat (map (\<lambda>j. concat (take ?m (drop (j * ?m) cs))) [0..<?G])"
    by (simp add: regroup_def)
  also have "\<dots> = concat (concat (map (\<lambda>j. take ?m (drop (j * ?m) cs)) [0..<?G]))"
    using concat_map_concat[of "map (\<lambda>j. take ?m (drop (j * ?m) cs)) [0..<?G]"] by (simp add: comp_def)
  also have "\<dots> = concat (take (?G * ?m) cs)" by (simp only: segments_concat)
  also have "\<dots> = concat cs" using ceil_div_cover[OF m1, of "length cs"] by simp
  finally show ?thesis .
qed

lemma length_regroup: "length (regroup st cs) = (length cs + nat (max_num_files st) - 1) div nat (max_num_files st)"
  by (simp add: regroup_def)

lemma tokens_regroup:
  assumes "num_files st = length cs" "\<forall>c \<in> set cs. tokens c"
  shows "\<forall>c \<in> set (regroup st cs). tokens c"
proof
  fix c assume "c \<in> set (regroup st cs)"
  then obtain j where "c = group_chunk st cs j" by (auto simp: regroup_def)
  then have "set c \<subseteq> \<Union> (set ` set cs)"
    unfolding group_chunk_segment[OF assms(1)] by (auto dest: in_set_takeD in_set_dropD)
  with assms(2) show "tokens c" by (auto simp: tokens_def)
qed

lemma nonempty_regroup:
  assumes n: "num_files st = length cs" and m: "1 \<le> max_num_files st" and ne: "\<forall>c \<in> set cs. c \<noteq> []"
  shows "\<forall>c \<in> set (regroup st cs). c \<noteq> []"
proof
  fix c assume "c \<in> set (regroup st cs)"
  then obtain j where j: "j < (length cs + nat (max_num_files st) - 1) div nat (max_num_files st)"
    and c: "c = group_chunk st cs j" by (auto simp: regroup_def)
  let ?m = "nat (max_num_files st)"
  have m1: "1 \<le> ?m" using m by simp
  have a: "j * ?m < length cs" using ceil_div_index[OF m1 j] .
  have l: "0 < length (take ?m (drop (j * ?m) cs))" using a m1 by simp
  have "take ?m (drop (j * ?m) cs) ! 0 = cs ! (j * ?m)" using a m1 by simp
  with nth_mem[OF l] have "cs ! (j * ?m) \<in> set (take ?m (drop (j * ?m) cs))" by simp
  moreover have "cs ! (j * ?m) \<noteq> []" using ne a by simp
  ultimately show "c \<noteq> []" unfolding c group_chunk_segment[OF n] by auto
qed

lemma merge_dump_files_runs:
  "runs_on_disk st fs cs \<Longrightarrow> \<forall>c \<in> set cs. tokens c \<Longrightarrow> merge_dump_files st fs = Inr (st', fs') \<Longrightarrow>
   \<exists>cs'. runs_on_disk st' fs' cs' \<and> (\<forall>c \<in> set cs'. tokens c) \<and> concat cs' = concat cs \<and>
         int (num_files st') \<le> max_num_files st' \<and> request_id st' = request_id st \<and>
         dirs fs' = dirs fs \<and> (cs \<noteq> [] \<longrightarrow> cs' \<noteq> []) \<and>
         ((\<forall>c \<in> set cs. c \<noteq> []) \<longrightarrow> (\<forall>c \<in> set cs'. c \<noteq> []))"
proof (induction st fs arbitrary: cs rule: merge_dump_files.induct)
  case (1 st fs)
  show ?case
  proof (cases "int (num_files st) > max_num_files st")
    case False
    with "1.prems"(3) have "st' = st" "fs' = fs" by (simp_all add: merge_dump_files.simps)
    with False "1.prems" show ?thesis by (intro exI[of _ cs]) simp
  next
    case True
    with "1.prems"(3) have m2: "\<not> max_num_files st < 2"
      by (auto simp: merge_dump_files.simps[of st fs] split: option.splits sum.splits)
    then have m1: "1 \<le> max_num_files st" by simp
    from "1.prems"(1) have n: "num_files st = length cs"
      and runs: "\<forall>i < length cs. disk_run st fs i (cs ! i)" by (auto simp: runs_on_disk_def)
    let ?m = "nat (max_num_files st)"
    let ?G = "(length cs + ?m - 1) div ?m"
    have rs: "range_step (num_files st) ?m = map (\<lambda>j. j * ?m) [0..<?G]"
      by (simp add: range_step_def n)
    from "1.prems"(3) True m2 obtain cur fs1 where
      mp: "merge_pass st (map (\<lambda>j. j * ?m) [0..<?G]) 0 fs = Inr (cur, fs1)"
      and rec: "merge_dump_files (st\<lparr>num_files := cur, num_merge_stages := num_merge_stages st + 1\<rparr>) fs1 = Inr (st', fs')"
      by (auto simp: merge_dump_files.simps[of st fs] rs split: sum.splits)
    let ?st1 = "st\<lparr>num_files := cur, num_merge_stages := num_merge_stages st + 1\<rparr>"
    from merge_pass_runs[OF "1.prems"(2) n m1 refl, of 0 fs cur fs1] runs mp
    have cur: "cur = ?G" and out: "\<forall>i < ?G. disk_run st fs1 i (group_chunk st cs i)"
      and d: "dirs fs1 = dirs fs" by auto
    have rod: "runs_on_disk ?st1 fs1 (regroup st cs)"
      using out cur by (simp add: runs_on_disk_def length_regroup disk_run_def regroup_def)
    have tk: "\<forall>c \<in> set (regroup st cs). tokens c" by (rule tokens_regroup[OF n "1.prems"(2)])
    from "1.IH"[OF True m2 mp[folded rs] refl rod tk rec]
    obtain cs' where cs': "runs_on_disk st' fs' cs'" "\<forall>c \<in> set cs'. tokens c"
      "concat cs' = concat (regroup st cs)" "int (num_files st') \<le> max_num_files st'"
      "request_id st' = request_id ?st1" "dirs fs' = dirs fs1" "regroup st cs \<noteq> [] \<longrightarrow> cs' \<noteq> []"
      "(\<forall>c \<in> set (regroup st cs). c \<noteq> []) \<longrightarrow> (\<forall>c \<in> set cs'. c \<noteq> [])"
      by blast
    have ne: "(\<forall>c \<in> set cs. c \<noteq> []) \<longrightarrow> (\<forall>c \<in> set cs'. c \<noteq> [])"
      using cs'(8) nonempty_regroup[OF n m1] by blast
    have "regroup st cs \<noteq> []" if "cs \<noteq> []"
    proof -
      from that have "0 < length cs" by simp
      moreover have "0 < ?m" using m1 by simp
      ultimately have "?m \<le> length cs + ?m - 1" by linarith
      with \<open>0 < ?m\<close> have "0 < ?G" by (simp add: div_greater_zero_iff)
      then show ?thesis using length_regroup[of st cs] by auto
    qed
    with cs'(1-7) ne d concat_regroup[OF n m1] show ?thesis
      by (intro exI[of _ cs']) simp
  qed
qed

lemma merge_dump_files_succeeds:
  "runs_on_disk st fs cs \<Longrightarrow> \<forall>c \<in> set cs. tokens c \<Longrightarrow> \<forall>c \<in> set cs. c \<noteq> [] \<Longrightarrow>
   2 \<le> max_num_files st \<or> int (num_files st) \<le> max_num_files st \<Longrightarrow>
   \<exists>st' fs'. merge_dump_files st fs = Inr (st', fs')"
proof (induction st fs arbitrary: cs rule: merge_dump_files.induct)
  case (1 st fs)
  show ?case
  proof (cases "int (num_files st) > max_num_files st")
    case False
    then show ?thesis by (simp add: merge_dump_files.simps[of st fs])
  next
    case True
    with "1.prems"(4) have m2: "\<not> max_num_files st < 2" by simp
    then have m1: "1 \<le> max_num_files st" by simp
    from "1.prems"(1) have n: "num_files st = length cs"
      and runs: "\<forall>i < length cs. disk_run st fs i (cs ! i)" by (auto simp: runs_on_disk_def)
    let ?m = "nat (max_num_files st)"
    let ?G = "(length cs + ?m - 1) div ?m"
    have rs: "range_step (num_files st) ?m = map (\<lambda>j. j * ?m) [0..<?G]"
      by (simp add: range_step_def n)
    from merge_pass_succeeds[OF "1.prems"(2) n m1 refl "1.prems"(3), of 0 fs] runs
    obtain fs1 where mp: "merge_pass st (map (\<lambda>j. j * ?m) [0..<?G]) 0 fs = Inr (?G, fs1)" by auto
    let ?st1 = "st\<lparr>num_files := ?G, num_merge_stages := num_merge_stages st + 1\<rparr>"
    from merge_pass_runs[OF "1.prems"(2) n m1 refl, of 0 fs ?G fs1] runs mp
    have out: "\<forall>i < ?G. disk_run st fs1 i (group_chunk st cs i)" by auto
    have rod: "runs_on_disk ?st1 fs1 (regroup st cs)"
      using out by (simp add: runs_on_disk_def length_regroup disk_run_def regroup_def)
    have tk: "\<forall>c \<in> set (regroup st cs). tokens c" by (rule tokens_regroup[OF n "1.prems"(2)])
    have ne: "\<forall>c \<in> set (regroup st cs). c \<noteq> []" by (rule nonempty_regroup[OF n m1 "1.prems"(3)])
    have "2 \<le> max_num_files ?st1 \<or> int (num_files ?st1) \<le> max_num_files ?st1" using m2 by simp
    from "1.IH"[OF True m2 mp[folded rs] refl rod tk ne this]
    obtain st' fs' where "merge_dump_files ?st1 fs1 = Inr (st', fs')" by blast
    with True m2 mp show ?thesis
      by (simp add: merge_dump_files.simps[of st fs] rs)
  qed
qed


section \<open>The accumulator keeps every pair\<close>

text \<open>The pairs of the input with their values as strings.\<close>

definition strs :: "(int \<times> pyval) list \<Rightarrow> (int \<times> string) list" where
  "strs input = map (\<lambda>kv. (fst kv, str_of (snd kv))) input"

text \<open>
  The state of the loop after the pairs \<open>seen\<close>: the dump files hold the chunks \<open>cs\<close>, the
  hashmap holds the chunk \<open>c\<close> that follows them. With the flag \<open>b\<close>, no chunk on disk is
  empty.
\<close>

definition chunk_inv :: "bool \<Rightarrow> gbs \<Rightarrow> fsys \<Rightarrow> (int \<times> string) list \<Rightarrow> chunk_state \<Rightarrow> bool" where
  "chunk_inv b st0 fs0 seen s = (case s of (cur, h, st, fs) \<Rightarrow>
     (\<exists>cs c. holds h c \<and> cur = length c \<and> runs_on_disk st fs cs \<and> concat cs @ c = seen \<and>
        request_id st = request_id st0 \<and> dirs fs = dirs fs0 \<and> (b \<longrightarrow> (\<forall>c \<in> set cs. c \<noteq> []))))"

lemma chunk_invI:
  "holds h c \<Longrightarrow> cur = length c \<Longrightarrow> runs_on_disk st fs cs \<Longrightarrow> concat cs @ c = seen \<Longrightarrow>
   request_id st = request_id st0 \<Longrightarrow> dirs fs = dirs fs0 \<Longrightarrow> (b \<longrightarrow> (\<forall>c \<in> set cs. c \<noteq> [])) \<Longrightarrow>
   chunk_inv b st0 fs0 seen (cur, h, st, fs)"
  by (simp add: chunk_inv_def) blast

lemma runs_on_disk_dump:
  assumes "runs_on_disk st fs cs" "holds h c"
  shows "runs_on_disk (st\<lparr>num_files := num_files st + 1, spills := spills st + 1\<rparr>)
           (write_key_values_to_file (sorted_items h) (get_dump_filename st (num_files st)) fs) (cs @ [c])"
proof -
  from assms(1) have n: "num_files st = length cs"
    and r: "\<forall>i < length cs. disk_run st fs i (cs ! i)" by (auto simp: runs_on_disk_def)
  show ?thesis
    unfolding runs_on_disk_def
  proof (intro conjI allI impI)
    show "num_files (st\<lparr>num_files := num_files st + 1, spills := spills st + 1\<rparr>) = length (cs @ [c])"
      using n by simp
  next
    fix i assume "i < length (cs @ [c])"
    then consider "i < length cs" | "i = length cs" by fastforce
    then show "disk_run (st\<lparr>num_files := num_files st + 1, spills := spills st + 1\<rparr>)
           (write_key_values_to_file (sorted_items h) (get_dump_filename st (num_files st)) fs) i ((cs @ [c]) ! i)"
    proof cases
      case 1
      with r n show ?thesis
        by (simp add: disk_run_def write_key_values_to_file_def nth_append)
    next
      case 2
      with n sorted_items_holds[OF assms(2)] show ?thesis
        by (simp add: disk_run_def write_key_values_to_file_def)
    qed
  qed
qed

lemma spill_if_full_inv:
  assumes "chunk_inv b st0 fs0 seen s" and "b \<longrightarrow> 1 \<le> max_hashmap_entries (fst (snd (snd s)))"
  shows "chunk_inv b st0 fs0 seen (spill_if_full s)"
proof -
  obtain cur h st fs where s: "s = (cur, h, st, fs)" by (cases s)
  from assms(1) s obtain cs c where i: "holds h c" "cur = length c" "runs_on_disk st fs cs"
    "concat cs @ c = seen" "request_id st = request_id st0" "dirs fs = dirs fs0"
    "b \<longrightarrow> (\<forall>c \<in> set cs. c \<noteq> [])"
    by (auto simp: chunk_inv_def)
  show ?thesis
  proof (cases "int cur \<ge> max_hashmap_entries st")
    case False
    with assms(1) s show ?thesis by (simp add: spill_if_full_def)
  next
    case True
    have ne: "b \<longrightarrow> c \<noteq> []" using True assms(2) s i(2) by auto
    have "chunk_inv b st0 fs0 seen (0, [], st\<lparr>num_files := num_files st + 1, spills := spills st + 1\<rparr>,
            write_key_values_to_file (sorted_items h) (get_dump_filename st (num_files st)) fs)"
    proof (rule chunk_invI[where cs = "cs @ [c]" and c = "[]"])
      show "holds [] []" by (rule holds_empty)
      show "runs_on_disk (st\<lparr>num_files := num_files st + 1, spills := spills st + 1\<rparr>)
          (write_key_values_to_file (sorted_items h) (get_dump_filename st (num_files st)) fs) (cs @ [c])"
        by (rule runs_on_disk_dump[OF i(3) i(1)])
      show "concat (cs @ [c]) @ [] = seen" using i(4) by simp
      show "b \<longrightarrow> (\<forall>c \<in> set (cs @ [c]). c \<noteq> [])" using i(7) ne by auto
    qed (use i in \<open>simp_all add: write_key_values_to_file_def\<close>)
    with True s show ?thesis by (simp add: spill_if_full_def dump_hashmap_to_disk_def)
  qed
qed

lemma runs_on_disk_cong:
  "num_files st' = num_files st \<Longrightarrow> request_id st' = request_id st \<Longrightarrow>
   runs_on_disk st' fs cs = runs_on_disk st fs cs"
  by (simp add: runs_on_disk_def disk_run_def dump_filename_cong[of st' st])

lemma insert_pair_inv:
  assumes "chunk_inv b st0 fs0 seen s" and "insert_pair getsizeof kv s = Inr s'"
  shows "chunk_inv b st0 fs0 (seen @ [(fst kv, str_of (snd kv))]) s'"
proof -
  obtain cur h st fs where s: "s = (cur, h, st, fs)" by (cases s)
  from assms(1) s obtain cs c where i: "holds h c" "cur = length c" "runs_on_disk st fs cs"
    "concat cs @ c = seen" "request_id st = request_id st0" "dirs fs = dirs fs0"
    "b \<longrightarrow> (\<forall>c \<in> set cs. c \<noteq> [])"
    by (auto simp: chunk_inv_def)
  from assms(2) s obtain st' where s': "s' = (cur + 1, hashmap_append (fst kv) (str_of (snd kv)) h, st', fs)"
    and st': "num_files st' = num_files st" "request_id st' = request_id st"
    by (auto simp: insert_pair_def Let_def split: if_splits)
  have rod: "runs_on_disk st' fs cs" using i(3) runs_on_disk_cong[OF st'] by simp
  show ?thesis
    unfolding s'
  proof (rule chunk_invI[where cs = cs and c = "c @ [(fst kv, str_of (snd kv))]"])
    show "holds (hashmap_append (fst kv) (str_of (snd kv)) h) (c @ [(fst kv, str_of (snd kv))])"
      by (rule holds_append[OF i(1)])
  qed (use i st' rod in simp_all)
qed

lemma chunk_step_inv:
  assumes "chunk_inv b st0 fs0 seen s" and "b \<longrightarrow> 1 \<le> max_hashmap_entries (fst (snd (snd s)))"
    and "chunk_step getsizeof kv s = Inr s'"
  shows "chunk_inv b st0 fs0 (seen @ [(fst kv, str_of (snd kv))]) s'"
  using insert_pair_inv[OF spill_if_full_inv[OF assms(1,2)]] assms(3)
  by (simp add: chunk_step_def)

text \<open>\<open>max_hashmap_entries\<close> is at least 1 at every spill check of the loop.\<close>

definition always_positive :: "(pyval \<Rightarrow> int) \<Rightarrow> (int \<times> pyval) list \<Rightarrow> chunk_state \<Rightarrow> bool" where
  "always_positive getsizeof input s = (\<forall>n < length input. \<forall>s'.
     chunk_loop getsizeof (take n input) s = Inr s' \<longrightarrow> 1 \<le> max_hashmap_entries (fst (snd (snd s'))))"

lemma always_positive_Cons:
  assumes "always_positive getsizeof (kv # input) s"
  shows "1 \<le> max_hashmap_entries (fst (snd (snd s)))"
    and "chunk_step getsizeof kv s = Inr s1 \<Longrightarrow> always_positive getsizeof input s1"
proof -
  from assms have "chunk_loop getsizeof (take 0 (kv # input)) s = Inr s \<longrightarrow>
      1 \<le> max_hashmap_entries (fst (snd (snd s)))"
    unfolding always_positive_def by (metis length_greater_0_conv list.distinct(1))
  then show "1 \<le> max_hashmap_entries (fst (snd (snd s)))" by simp
  assume st: "chunk_step getsizeof kv s = Inr s1"
  show "always_positive getsizeof input s1"
    unfolding always_positive_def
  proof (intro allI impI)
    fix n s' assume n: "n < length input" and l: "chunk_loop getsizeof (take n input) s1 = Inr s'"
    from l st have "chunk_loop getsizeof (take (Suc n) (kv # input)) s = Inr s'" by simp
    moreover have "Suc n < length (kv # input)" using n by simp
    ultimately show "1 \<le> max_hashmap_entries (fst (snd (snd s')))"
      using assms unfolding always_positive_def by blast
  qed
qed

lemma chunk_loop_inv:
  "chunk_inv b st0 fs0 seen s \<Longrightarrow> (b \<longrightarrow> always_positive getsizeof input s) \<Longrightarrow>
   chunk_loop getsizeof input s = Inr s' \<Longrightarrow> chunk_inv b st0 fs0 (seen @ strs input) s'"
proof (induction input arbitrary: s seen)
  case Nil
  then show ?case by (simp add: strs_def)
next
  case (Cons kv input)
  from Cons.prems(3) obtain s1 where s1: "chunk_step getsizeof kv s = Inr s1"
    and rest: "chunk_loop getsizeof input s1 = Inr s'" by (auto split: sum.splits)
  have p: "b \<longrightarrow> 1 \<le> max_hashmap_entries (fst (snd (snd s)))"
    using Cons.prems(2) always_positive_Cons(1) by blast
  have inv1: "chunk_inv b st0 fs0 (seen @ [(fst kv, str_of (snd kv))]) s1"
    by (rule chunk_step_inv[OF Cons.prems(1) p s1])
  have ap: "b \<longrightarrow> always_positive getsizeof input s1"
    using Cons.prems(2) always_positive_Cons(2)[OF _ s1] by blast
  from Cons.IH[OF inv1 ap rest] show ?case by (simp add: strs_def)
qed


lemma chunk_input_result:
  assumes n0: "num_files st = 0"
    and pos: "b \<longrightarrow> always_positive getsizeof input (0, [], st, fs)"
    and res: "chunk_input_into_dump_files getsizeof input st fs = Inr (result, st', fs')"
  shows "request_id st' = request_id st \<and> dirs fs' = dirs fs \<and>
         (case result of
            Some h \<Rightarrow> holds h (strs input) \<and> num_files st' = 0
          | None \<Rightarrow> (\<exists>cs. runs_on_disk st' fs' cs \<and> concat cs = strs input \<and> cs \<noteq> [] \<and>
                         (b \<longrightarrow> (\<forall>c \<in> set cs. c \<noteq> []))))"
proof -
  from res obtain cur h st1 fs1 where loop: "chunk_loop getsizeof input (0, [], st, fs) = Inr (cur, h, st1, fs1)"
    by (auto simp: chunk_input_into_dump_files_def split: sum.splits)
  have "chunk_inv b st fs [] (0, [], st, fs)"
    by (rule chunk_invI[where cs = "[]" and c = "[]"]) (simp_all add: holds_empty runs_on_disk_def n0)
  from chunk_loop_inv[OF this pos loop]
  obtain cs c where i: "holds h c" "cur = length c" "runs_on_disk st1 fs1 cs" "concat cs @ c = strs input"
    "request_id st1 = request_id st" "dirs fs1 = dirs fs" "b \<longrightarrow> (\<forall>c \<in> set cs. c \<noteq> [])"
    by (auto simp: chunk_inv_def)
  from i(3) have n1: "num_files st1 = length cs" by (simp add: runs_on_disk_def)
  show ?thesis
  proof (cases "num_files st1 = 0")
    case True
    with res loop have "result = Some h" "st' = st1" "fs' = fs1"
      by (simp_all add: chunk_input_into_dump_files_def)
    moreover from True n1 have "cs = []" by simp
    ultimately show ?thesis using i True by simp
  next
    case False
    then have csne: "cs \<noteq> []" using n1 by auto
    show ?thesis
    proof (cases "cur = 0")
      case True
      with False res loop have "result = None" "st' = st1" "fs' = fs1"
        by (simp_all add: chunk_input_into_dump_files_def)
      moreover from True i(2) have "c = []" by simp
      ultimately show ?thesis using i csne by auto
    next
      case cur: False
      with False res loop have r: "result = None"
        "st' = st1\<lparr>num_files := num_files st1 + 1, spills := spills st1 + 1\<rparr>"
        "fs' = write_key_values_to_file (sorted_items h) (get_dump_filename st1 (num_files st1)) fs1"
        by (simp_all add: chunk_input_into_dump_files_def dump_hashmap_to_disk_def)
      from cur i(2) have cne: "c \<noteq> []" by auto
      have "runs_on_disk st' fs' (cs @ [c])" unfolding r by (rule runs_on_disk_dump[OF i(3) i(1)])
      moreover have "concat (cs @ [c]) = strs input" using i(4) by simp
      moreover have "b \<longrightarrow> (\<forall>c \<in> set (cs @ [c]). c \<noteq> [])" using i(7) cne by auto
      ultimately have "\<exists>cs. runs_on_disk st' fs' cs \<and> concat cs = strs input \<and> cs \<noteq> [] \<and>
                         (b \<longrightarrow> (\<forall>c \<in> set cs. c \<noteq> []))"
        by (intro exI[of _ "cs @ [c]"]) simp
      then show ?thesis using r i by (simp add: write_key_values_to_file_def)
    qed
  qed
qed

section \<open>What the result iterators yield\<close>

lemma exhaust_memory_state:
  "exhaust (FromMemory \<lparr>mi_hashmap = h, mi_iter = ks, mi_remaining_elements = int (length ks)\<rparr>) fs =
     Inr (map (\<lambda>key. (key, getitem h key)) ks, fs)"
proof (induction ks)
  case Nil
  show ?case by (subst exhaust.simps) (simp add: mem_hasNext_def)
next
  case (Cons k ks)
  show ?case
    by (subst exhaust.simps) (simp add: mem_hasNext_def mem_next_def Cons)
qed

lemma exhaust_memory:
  "exhaust (FromMemory (KeyListIteratorFromMemory h)) fs = Inr (sorted_items h, fs)"
  using exhaust_memory_state[of h "sort (map fst h)" fs]
  by (simp add: KeyListIteratorFromMemory_def sorted_items_def)

text \<open>The file system once \<^verbatim>\<open>shutil.rmtree\<close> has removed the directory \<open>d\<close>.\<close>

definition without_tree :: "string \<Rightarrow> fsys \<Rightarrow> fsys" where
  "without_tree d fs = \<lparr>dirs = Set.filter (\<lambda>x. x \<noteq> d \<and> \<not> in_dir d x) (dirs fs),
                        files = (\<lambda>p. if in_dir d p then None else files fs p)\<rparr>"

lemma rmtree_existing: "d \<in> dirs fs \<Longrightarrow> rmtree d fs = Inr (without_tree d fs)"
  by (simp add: rmtree_def without_tree_def)

lemma rmtree_result: "rmtree d fs = Inr fs' \<Longrightarrow> fs' = without_tree d fs \<and> d \<in> dirs fs"
  by (auto simp: rmtree_def without_tree_def split: if_splits)

lemma without_tree_gone: "d \<notin> dirs (without_tree d fs)" "in_dir d p \<Longrightarrow> files (without_tree d fs) p = None"
  by (simp_all add: without_tree_def)

lemma exhaust_disk:
  "heap_inv h R \<Longrightarrow> rid \<in> dirs fs \<Longrightarrow>
   exhaust (FromDisk \<lparr>di_request_id = rid, di_merge_file_iterator = h\<rparr>) fs =
     Inr (merge_spec R, if h = [] then fs else without_tree rid fs)"
proof (induction "sum_list (map length R)" arbitrary: h R rule: less_induct)
  case less
  show ?case
  proof (cases "h = []")
    case True
    with less.prems have "items R = {}" by (simp add: heap_inv_def)
    then have "merge_spec R = []" by (rule merge_spec_exhausted)
    with True show ?thesis
      by (subst exhaust.simps) (simp add: disk_hasNext_def hasNext_merge_def)
  next
    case False
    let ?k = "fst (hd h)"
    let ?V = "concat (map (\<lambda>r. if r \<noteq> [] \<and> fst (hd r) = ?k then snd (hd r) else []) R)"
    from merge_next_step[OF less.prems(1) False]
    obtain h' where nx: "merge_next h = Inr ((?k, ?V), h')" and inv': "heap_inv h' (map (adv ?k) R)"
      and low: "\<forall>r \<in> set R. \<forall>e \<in> set r. ?k \<le> fst e"
      and ex: "\<exists>r \<in> set R. r \<noteq> [] \<and> fst (hd r) = ?k" by blast
    from less.prems have wf: "\<forall>r \<in> set R. wf_run r" by (simp add: heap_inv_def)
    have sp: "merge_spec R = (?k, ?V) # merge_spec (map (adv ?k) R)"
      by (rule merge_spec_step[OF wf low ex])
    show ?thesis
    proof (cases "h' = []")
      case True
      with inv' have "items (map (adv ?k) R) = {}" by (simp add: heap_inv_def)
      then have e: "merge_spec (map (adv ?k) R) = []" by (rule merge_spec_exhausted)
      have "exhaust (FromDisk \<lparr>di_request_id = rid, di_merge_file_iterator = []\<rparr>) (without_tree rid fs)
            = Inr ([], without_tree rid fs)"
        by (subst exhaust.simps) (simp add: disk_hasNext_def hasNext_merge_def)
      with True False nx sp e less.prems(2) show ?thesis
        by (subst exhaust.simps)
           (simp add: disk_hasNext_def hasNext_merge_def disk_next_def rmtree_existing)
    next
      case h': False
      have IH: "exhaust (FromDisk \<lparr>di_request_id = rid, di_merge_file_iterator = h'\<rparr>) fs =
                Inr (merge_spec (map (adv ?k) R), if h' = [] then fs else without_tree rid fs)"
        using less.hyps[OF adv_decreases[OF ex] inv' less.prems(2)] .
      with h' False nx sp show ?thesis
        by (subst exhaust.simps)
           (simp add: disk_hasNext_def hasNext_merge_def disk_next_def)
    qed
  qed
qed


section \<open>The workspace directory\<close>

lemma remove_all_dirs: "remove_all ps fs = Inr fs' \<Longrightarrow> dirs fs' = dirs fs"
proof (induction ps arbitrary: fs)
  case Nil then show ?case by simp
next
  case (Cons p ps)
  from Cons.prems obtain fs1 where a: "os_remove p fs = Inr fs1" and b: "remove_all ps fs1 = Inr fs'"
    by (auto split: sum.splits)
  from a have "dirs fs1 = dirs fs" by (auto simp: os_remove_def split: option.splits)
  with Cons.IH[OF b] show ?case by simp
qed

lemma move_dirs: "move src dst fs = Inr fs' \<Longrightarrow> dirs fs' = dirs fs"
  by (auto simp: move_def split: option.splits)

lemma merge_to_file_dirs: "merge_to_file ps mf fs = Inr fs' \<Longrightarrow> dirs fs' = dirs fs"
  by (auto simp: merge_to_file_def write_key_values_to_file_def split: sum.splits prod.splits option.splits)

lemma merge_group_dirs: "merge_group st a j fs = Inr fs' \<Longrightarrow> dirs fs' = dirs fs"
proof -
  assume a: "merge_group st a j fs = Inr fs'"
  show ?thesis
  proof (cases "length (map (get_dump_filename st) (group_ids st a)) = 1")
    case True
    with a show ?thesis by (auto simp: merge_group_def Let_def split: sum.splits dest: move_dirs)
  next
    case False
    with a obtain fs1 fs2 where "merge_to_file (map (get_dump_filename st) (group_ids st a)) (get_merge_filename st) fs = Inr fs1"
      "remove_all (map (get_dump_filename st) (group_ids st a)) fs1 = Inr fs2"
      "move (get_merge_filename st) (get_dump_filename st j) fs2 = Inr fs'"
      by (auto simp: merge_group_def Let_def split: sum.splits)
    then show ?thesis using merge_to_file_dirs remove_all_dirs move_dirs by metis
  qed
qed

lemma merge_pass_dirs: "merge_pass st indices cur fs = Inr (cur', fs') \<Longrightarrow> dirs fs' = dirs fs"
proof (induction indices arbitrary: cur fs)
  case Nil then show ?case by simp
next
  case (Cons index rest)
  from Cons.prems obtain fs1 where a: "merge_group st index cur fs = Inr fs1"
    and b: "merge_pass st rest (Suc cur) fs1 = Inr (cur', fs')" by (auto split: sum.splits)
  from Cons.IH[OF b] merge_group_dirs[OF a] show ?case by simp
qed

text \<open>What the merge loop keeps, whatever the files hold.\<close>

lemma merge_dump_files_keeps:
  "merge_dump_files st fs = Inr (st', fs') \<Longrightarrow>
   dirs fs' = dirs fs \<and> request_id st' = request_id st \<and> max_num_files st' = max_num_files st \<and>
   int (num_files st') \<le> max_num_files st' \<and> (1 \<le> num_files st \<longrightarrow> 1 \<le> num_files st')"
proof (induction st fs rule: merge_dump_files.induct)
  case (1 st fs)
  show ?case
  proof (cases "int (num_files st) > max_num_files st")
    case False
    with "1.prems" show ?thesis by (simp add: merge_dump_files.simps[of st fs])
  next
    case True
    with "1.prems" have m2: "\<not> max_num_files st < 2"
      by (auto simp: merge_dump_files.simps[of st fs] split: option.splits sum.splits)
    let ?m = "nat (max_num_files st)"
    from "1.prems" True m2 obtain cur fs1 where
      mp: "merge_pass st (range_step (num_files st) ?m) 0 fs = Inr (cur, fs1)"
      and rec: "merge_dump_files (st\<lparr>num_files := cur, num_merge_stages := num_merge_stages st + 1\<rparr>) fs1 = Inr (st', fs')"
      by (auto simp: merge_dump_files.simps[of st fs] split: sum.splits)
    from merge_pass_count[OF mp] have cur: "cur = (num_files st + ?m - 1) div ?m"
      by (simp add: length_range_step)
    have "1 \<le> cur" if "1 \<le> num_files st"
    proof -
      from m2 have "0 < ?m" by simp
      moreover from that have "?m \<le> num_files st + ?m - 1" by linarith
      ultimately show ?thesis unfolding cur by (simp add: div_greater_zero_iff Suc_le_eq)
    qed
    with "1.IH"[OF True m2 mp refl rec] merge_pass_dirs[OF mp] show ?thesis by simp
  qed
qed

lemma length_heappush: "length (heappush h x) = Suc (length h)"
  by (induction h) auto

lemma push_first_keys_length:
  "push_first_keys n fs h0 = Inr h \<Longrightarrow> length h = length h0 + length fs"
proof (induction fs arbitrary: n h0)
  case Nil then show ?case by simp
next
  case (Cons f fs)
  from Cons.prems obtain line f' key where
    "push_first_keys (Suc n) fs (heappush h0 (key, n, f')) = Inr h"
    by (auto split: option.splits prod.splits)
  from Cons.IH[OF this] show ?case by (simp add: length_heappush)
qed

lemma open_all_length: "open_all fs ps = Inr hs \<Longrightarrow> length hs = length ps"
  by (induction ps arbitrary: hs) (auto split: sum.splits)

lemma MergeFileIterator_length: "MergeFileIterator fs ps = Inr h \<Longrightarrow> length h = length ps"
proof -
  assume "MergeFileIterator fs ps = Inr h"
  then obtain hs where a: "open_all fs ps = Inr hs" and b: "push_first_keys 0 hs [] = Inr h"
    by (auto simp: MergeFileIterator_def split: sum.splits)
  from push_first_keys_length[OF b] open_all_length[OF a] show ?thesis by simp
qed

lemma resolve_request_id_free: "resolve_request_id r candidates fs = Some rid \<Longrightarrow> rid \<notin> dirs fs"
  by (auto simp: resolve_request_id_def isdir_def split: if_splits dest: find_Some_iff[THEN iffD1])

text \<open>The spill path hands over an iterator that has an entry, with its workspace in place.\<close>

lemma groupBy_in_disk:
  assumes "groupBy_in getsizeof rid st0 input fs0 = Inr (FromDisk it, st', fs')"
    and "num_files st0 = 0"
  shows "di_request_id it = rid \<and> rid \<in> dirs fs' \<and> disk_hasNext it \<and> request_id st' = Some rid"
proof -
  let ?st = "st0\<lparr>request_id := Some rid\<rparr>"
  from assms(1) obtain fs1 st2 fs2 st3 where mk: "mkdir rid fs0 = Inr fs1"
    and ch: "chunk_input_into_dump_files getsizeof input ?st fs1 = Inr (None, st2, fs2)"
    and mg: "merge_dump_files st2 fs2 = Inr (st3, fs')" and st': "st' = st3"
    and it: "KeyListIteratorFromDisk rid (map (get_dump_filename st3) [0..<num_files st3]) fs' = Inr it"
    by (auto simp: groupBy_in_def Let_def split: sum.splits option.splits)
  from mk have d1: "rid \<in> dirs fs1" by (auto simp: mkdir_def split: if_splits)
  have n0: "num_files ?st = 0" using assms(2) by simp
  from chunk_input_result[OF n0 _ ch, of False]
  obtain cs where c: "request_id st2 = Some rid" "dirs fs2 = dirs fs1" "runs_on_disk st2 fs2 cs" "cs \<noteq> []"
    by auto
  then have "1 \<le> num_files st2" by (cases cs) (auto simp: runs_on_disk_def)
  with merge_dump_files_keeps[OF mg] c d1
  have k: "rid \<in> dirs fs'" "request_id st3 = Some rid" "1 \<le> num_files st3" by auto
  from it obtain h where h: "MergeFileIterator fs' (map (get_dump_filename st3) [0..<num_files st3]) = Inr h"
    and it': "it = \<lparr>di_request_id = rid, di_merge_file_iterator = h\<rparr>"
    by (auto simp: KeyListIteratorFromDisk_def split: sum.splits)
  from MergeFileIterator_length[OF h] k(3) have "h \<noteq> []" by auto
  with it' k st' show ?thesis by (simp add: disk_hasNext_def hasNext_merge_def)
qed


section \<open>groupBy yields the reference grouping\<close>

lemma tokens_chunks: "tokens (concat cs) \<Longrightarrow> \<forall>c \<in> set cs. tokens c"
  by (auto simp: tokens_def)

lemma runs_on_disk_files:
  assumes "runs_on_disk st fs cs" "\<forall>c \<in> set cs. tokens c"
  shows "list_all2 (\<lambda>p r. files fs p = Some (run_text r) \<and> wf_run r)
           (map (get_dump_filename st) [0..<num_files st]) (map group_ref cs)"
  unfolding list_all2_conv_all_nth
proof (intro conjI allI impI)
  from assms(1) have n: "num_files st = length cs"
    and r: "\<forall>i < length cs. disk_run st fs i (cs ! i)" by (auto simp: runs_on_disk_def)
  show "length (map (get_dump_filename st) [0..<num_files st]) = length (map group_ref cs)"
    using n by simp
  fix i assume "i < length (map (get_dump_filename st) [0..<num_files st])"
  then have i: "i < length cs" using n by simp
  with r show "files fs (map (get_dump_filename st) [0..<num_files st] ! i) = Some (run_text (map group_ref cs ! i))"
    using n by (simp add: disk_run_def)
  from i assms(2) have "tokens (cs ! i)" by simp
  then show "wf_run (map group_ref cs ! i)" using i by (simp add: wf_run_group_ref tokens_def)
qed

lemma groupBy_in_correct:
  assumes g: "groupBy_in getsizeof rid st0 input fs0 = Inr (it, st', fs')"
    and n0: "num_files st0 = 0"
    and tok: "tokens (strs input)"
  shows "\<exists>fs''. exhaust it fs' = Inr (group_ref (strs input), fs'')"
proof -
  let ?st = "st0\<lparr>request_id := Some rid\<rparr>"
  from g obtain fs1 result st2 fs2 where mk: "mkdir rid fs0 = Inr fs1"
    and ch: "chunk_input_into_dump_files getsizeof input ?st fs1 = Inr (result, st2, fs2)"
    by (auto simp: groupBy_in_def Let_def split: sum.splits)
  from mk have d1: "rid \<in> dirs fs1" by (auto simp: mkdir_def split: if_splits)
  have n0': "num_files ?st = 0" using n0 by simp
  note cr = chunk_input_result[OF n0' _ ch, of False]
  show ?thesis
  proof (cases result)
    case (Some h)
    with g mk ch have it: "it = FromMemory (KeyListIteratorFromMemory h)"
      by (auto simp: groupBy_in_def Let_def split: sum.splits)
    from cr Some have "holds h (strs input)" by simp
    then show ?thesis unfolding it by (simp add: exhaust_memory sorted_items_holds)
  next
    case None
    with g mk ch obtain st3 d where mg: "merge_dump_files st2 fs2 = Inr (st3, fs')"
      and kd: "KeyListIteratorFromDisk rid (map (get_dump_filename st3) [0..<num_files st3]) fs' = Inr d"
      and it: "it = FromDisk d"
      by (auto simp: groupBy_in_def Let_def split: sum.splits)
    from cr None obtain cs where c: "runs_on_disk st2 fs2 cs" "concat cs = strs input"
      "dirs fs2 = dirs fs1" by auto
    have tk: "\<forall>c \<in> set cs. tokens c" using tok c(2) tokens_chunks by metis
    from merge_dump_files_runs[OF c(1) tk mg]
    obtain cs' where c': "runs_on_disk st3 fs' cs'" "\<forall>c \<in> set cs'. tokens c" "concat cs' = concat cs"
      "dirs fs' = dirs fs2" by blast
    from kd obtain h where h: "MergeFileIterator fs' (map (get_dump_filename st3) [0..<num_files st3]) = Inr h"
      and d: "d = \<lparr>di_request_id = rid, di_merge_file_iterator = h\<rparr>"
      by (auto simp: KeyListIteratorFromDisk_def split: sum.splits)
    note la = runs_on_disk_files[OF c'(1) c'(2)]
    from MergeFileIterator_nonempty[OF la h] have ne: "\<forall>r \<in> set (map group_ref cs'). r \<noteq> []" .
    from MergeFileIterator_runs[OF la ne] h have inv: "heap_inv h (map group_ref cs')" by auto
    have "rid \<in> dirs fs'" using d1 c(3) c'(4) by simp
    from exhaust_disk[OF inv this] show ?thesis
      unfolding it d by (simp add: merge_spec_group_ref c'(3) c(2))
  qed
qed

lemma groupBy_correct:
  assumes g: "groupBy getsizeof candidates st input fs = Some (Inr (it, st', fs'))"
    and tok: "tokens (strs input)"
  shows "\<exists>fs''. exhaust it fs' = Inr (group_ref (strs input), fs'')"
proof (cases "input = []")
  case True
  with g have "it = FromMemory (KeyListIteratorFromMemory [])" by (simp add: groupBy_def Let_def)
  with True show ?thesis by (simp add: exhaust_memory sorted_items_def strs_def group_ref_def)
next
  case False
  let ?st0 = "st\<lparr>num_files := 0, total_num_entries := 0, spills := 0, num_merge_stages := 0\<rparr>"
  from g False obtain rid where "groupBy_in getsizeof rid ?st0 input fs = Inr (it, st', fs')"
    by (auto simp: groupBy_def Let_def split: option.splits)
  from groupBy_in_correct[OF this _ tok] show ?thesis by simp
qed

subsection \<open>What the reference grouping says about the stream\<close>

lemma flat_group_ref_mset:
  "mset (concat (map (\<lambda>e. map (Pair (fst e)) (snd e)) (group_ref ps))) = mset ps"
proof -
  let ?K = "fst ` set ps"
  have "mset (concat (map (\<lambda>e. map (Pair (fst e)) (snd e)) (group_ref ps))) =
        (\<Sum>k \<in> ?K. mset (map (Pair k) (values_for k ps)))"
  proof -
    have "mset (concat (map (\<lambda>e. map (Pair (fst e)) (snd e)) (group_ref ps))) =
          sum_list (map (\<lambda>k. mset (map (Pair k) (values_for k ps))) (sorted_list_of_set ?K))"
      by (simp add: group_ref_def mset_concat comp_def)
    also have "\<dots> = (\<Sum>k \<in> ?K. mset (map (Pair k) (values_for k ps)))"
      using sum_list_distinct_conv_sum_set[of "sorted_list_of_set ?K" "\<lambda>k. mset (map (Pair k) (values_for k ps))"]
      by simp
    finally show ?thesis .
  qed
  also have "\<dots> = (\<Sum>k \<in> ?K. filter_mset (\<lambda>p. fst p = k) (mset ps))"
  proof (rule sum.cong)
    fix k
    have "map (Pair k) (values_for k ps) = filter (\<lambda>p. fst p = k) ps"
      by (induction ps) (auto simp: values_for_def)
    then show "mset (map (Pair k) (values_for k ps)) = filter_mset (\<lambda>p. fst p = k) (mset ps)" by simp
  qed simp
  also have "\<dots> = mset ps"
  proof (rule multiset_eqI)
    fix x
    have "count (\<Sum>k \<in> ?K. filter_mset (\<lambda>p. fst p = k) (mset ps)) x =
          (\<Sum>k \<in> ?K. if fst x = k then count (mset ps) x else 0)"
      by (simp add: count_sum)
    also have "\<dots> = (if fst x \<in> ?K then count (mset ps) x else 0)"
      by (simp add: sum.delta')
    also have "\<dots> = count (mset ps) x"
      by (metis count_mset_0_iff image_eqI)
    finally show "count (\<Sum>k \<in> ?K. filter_mset (\<lambda>p. fst p = k) (mset ps)) x = count (mset ps) x" .
  qed
  finally show ?thesis .
qed


section \<open>groupBy returns an iterator\<close>

text \<open>
  Once the first pair has been counted, or when \<open>max_memory\<close> is not set, the loop of the
  accumulator never fails and never changes the configuration.
\<close>

definition settled :: "gbs \<Rightarrow> bool" where
  "settled st = (max_memory st \<le> 0 \<or> 1 \<le> total_num_entries st)"

lemma chunk_step_settled:
  assumes "settled st"
  shows "\<exists>cur' h' st' fs'. chunk_step getsizeof kv (cur, h, st, fs) = Inr (cur', h', st', fs') \<and>
           max_hashmap_entries st' = max_hashmap_entries st \<and> max_num_files st' = max_num_files st \<and>
           settled st'"
proof -
  obtain cur1 h1 st1 fs1 where sp: "spill_if_full (cur, h, st, fs) = (cur1, h1, st1, fs1)"
    by (cases "spill_if_full (cur, h, st, fs)")
  then have c: "max_hashmap_entries st1 = max_hashmap_entries st" "max_num_files st1 = max_num_files st"
    "max_memory st1 = max_memory st" "total_num_entries st1 = total_num_entries st"
    by (auto simp: spill_if_full_def dump_hashmap_to_disk_def split: if_splits)
  with assms have "\<not> (max_memory st1 > 0 \<and> total_num_entries st1 + 1 = 1)"
    by (auto simp: settled_def)
  then show ?thesis using c assms
    by (auto simp: chunk_step_def sp insert_pair_def Let_def settled_def)
qed

lemma chunk_loop_settled:
  "settled st \<Longrightarrow>
   \<exists>cur' h' st' fs'. chunk_loop getsizeof input (cur, h, st, fs) = Inr (cur', h', st', fs') \<and>
      max_hashmap_entries st' = max_hashmap_entries st \<and> max_num_files st' = max_num_files st"
proof (induction input arbitrary: cur h st fs)
  case Nil
  then show ?case by simp
next
  case (Cons kv input)
  from chunk_step_settled[OF Cons.prems, of getsizeof kv cur h fs]
  obtain cur1 h1 st1 fs1 where s: "chunk_step getsizeof kv (cur, h, st, fs) = Inr (cur1, h1, st1, fs1)"
    and c: "max_hashmap_entries st1 = max_hashmap_entries st" "max_num_files st1 = max_num_files st"
      "settled st1" by blast
  from Cons.IH[OF c(3), of cur1 h1 fs1] s c show ?case by auto
qed

lemma always_positive_settled:
  assumes "settled st" "1 \<le> max_hashmap_entries st"
  shows "always_positive getsizeof input (cur, h, st, fs)"
  unfolding always_positive_def
proof (intro allI impI)
  fix n s' assume "chunk_loop getsizeof (take n input) (cur, h, st, fs) = Inr s'"
  with chunk_loop_settled[OF assms(1), of getsizeof "take n input" cur h fs] assms(2)
  show "1 \<le> max_hashmap_entries (fst (snd (snd s')))" by auto
qed

text \<open>The configurations under which \<^verbatim>\<open>groupBy\<close> is shown to return.\<close>

definition plain_config :: "gbs \<Rightarrow> bool" where
  "plain_config st = (max_memory st \<le> 0 \<and> 1 \<le> max_hashmap_entries st \<and> 2 \<le> max_num_files st)"

definition tuned_config :: "(pyval \<Rightarrow> int) \<Rightarrow> gbs \<Rightarrow> (int \<times> pyval) list \<Rightarrow> bool" where
  "tuned_config getsizeof st input = (0 < max_memory st \<and> 1 \<le> max_hashmap_entries st \<and>
     (case input of [] \<Rightarrow> False
      | kv # rest \<Rightarrow> 2 \<le> max_memory st div (getsizeof (PyInt (fst kv)) + getsizeof (snd kv))))"

lemma chunk_loop_config:
  assumes "plain_config st \<or> tuned_config getsizeof st input" and "total_num_entries st = 0"
  shows "\<exists>cur' h' st' fs'. chunk_loop getsizeof input (0, [], st, fs) = Inr (cur', h', st', fs') \<and>
           2 \<le> max_num_files st'"
    and "always_positive getsizeof input (0, [], st, fs)"
proof -
  have both: "(\<exists>cur' h' st' fs'. chunk_loop getsizeof input (0, [], st, fs) = Inr (cur', h', st', fs') \<and>
           2 \<le> max_num_files st') \<and> always_positive getsizeof input (0, [], st, fs)"
  proof (cases "plain_config st")
    case True
    then have s: "settled st" and p: "1 \<le> max_hashmap_entries st" and m: "2 \<le> max_num_files st"
      by (auto simp: plain_config_def settled_def)
    from chunk_loop_settled[OF s, of getsizeof input 0 "[]" fs] m always_positive_settled[OF s p]
    show ?thesis by auto
  next
    case False
    with assms(1) have t: "tuned_config getsizeof st input" by simp
    then obtain kv rest where input: "input = kv # rest" by (cases input) (auto simp: tuned_config_def)
    let ?size = "getsizeof (PyInt (fst kv)) + getsizeof (snd kv)"
    let ?q = "max_memory st div ?size"
    from t input have mm: "0 < max_memory st" and p: "1 \<le> max_hashmap_entries st" and q: "2 \<le> ?q"
      by (auto simp: tuned_config_def)
    from q have nz: "?size \<noteq> 0" by (cases "?size = 0") auto
    have sp: "spill_if_full (0, [], st, fs) = (0, [], st, fs)"
      using p by (simp add: spill_if_full_def)
    let ?st1 = "st\<lparr>total_num_entries := 1, max_hashmap_entries := ?q, max_num_files := min 1000 ?q\<rparr>"
    have step: "chunk_step getsizeof kv (0, [], st, fs) =
        Inr (1, hashmap_append (fst kv) (str_of (snd kv)) [], ?st1, fs)"
      using mm nz assms(2) by (simp add: chunk_step_def sp insert_pair_def Let_def)
    have s1: "settled ?st1" by (simp add: settled_def)
    have p1: "1 \<le> max_hashmap_entries ?st1" using q by simp
    from chunk_loop_settled[OF s1, of getsizeof rest 1 "hashmap_append (fst kv) (str_of (snd kv)) []" fs]
    obtain cur' h' st' fs' where l: "chunk_loop getsizeof rest (1, hashmap_append (fst kv) (str_of (snd kv)) [], ?st1, fs)
        = Inr (cur', h', st', fs')" and m: "max_num_files st' = max_num_files ?st1" by blast
    have "2 \<le> max_num_files st'" using m q by simp
    with l step input have a: "\<exists>cur' h' st' fs'. chunk_loop getsizeof input (0, [], st, fs) = Inr (cur', h', st', fs') \<and>
           2 \<le> max_num_files st'" by auto
    have b: "always_positive getsizeof input (0, [], st, fs)"
      unfolding always_positive_def
    proof (intro allI impI)
      fix n s' assume n: "n < length input" and l: "chunk_loop getsizeof (take n input) (0, [], st, fs) = Inr s'"
      show "1 \<le> max_hashmap_entries (fst (snd (snd s')))"
      proof (cases n)
        case 0
        with l p show ?thesis by auto
      next
        case (Suc k)
        with l input step have "chunk_loop getsizeof (take k rest)
            (1, hashmap_append (fst kv) (str_of (snd kv)) [], ?st1, fs) = Inr s'" by simp
        with chunk_loop_settled[OF s1, of getsizeof "take k rest" 1 "hashmap_append (fst kv) (str_of (snd kv)) []" fs] p1
        show ?thesis by auto
      qed
    qed
    from a b show ?thesis by simp
  qed
  from both show "\<exists>cur' h' st' fs'. chunk_loop getsizeof input (0, [], st, fs) = Inr (cur', h', st', fs') \<and>
           2 \<le> max_num_files st'" by simp
  from both show "always_positive getsizeof input (0, [], st, fs)" by simp
qed

lemma chunk_input_succeeds:
  assumes "chunk_loop getsizeof input (0, [], st, fs) = Inr (cur, h, st1, fs1)"
  shows "\<exists>result st' fs'. chunk_input_into_dump_files getsizeof input st fs = Inr (result, st', fs') \<and>
           max_num_files st' = max_num_files st1"
  using assms by (simp add: chunk_input_into_dump_files_def dump_hashmap_to_disk_def)

lemma groupBy_in_succeeds:
  assumes cfg: "plain_config st0 \<or> tuned_config getsizeof st0 input"
    and t0: "total_num_entries st0 = 0" and n0: "num_files st0 = 0"
    and tok: "tokens (strs input)"
    and free: "rid \<notin> dirs fs0" and nofile: "files fs0 rid = None"
  shows "\<exists>it st' fs'. groupBy_in getsizeof rid st0 input fs0 = Inr (it, st', fs')"
proof -
  let ?st = "st0\<lparr>request_id := Some rid\<rparr>"
  let ?fs1 = "fs0\<lparr>dirs := insert rid (dirs fs0)\<rparr>"
  have mk: "mkdir rid fs0 = Inr ?fs1" using free nofile by (simp add: mkdir_def)
  have cfg': "plain_config ?st \<or> tuned_config getsizeof ?st input"
    using cfg by (auto simp: plain_config_def tuned_config_def split: list.splits)
  have t0': "total_num_entries ?st = 0" using t0 by simp
  have n0': "num_files ?st = 0" using n0 by simp
  from chunk_loop_config(1)[OF cfg' t0', of ?fs1]
  obtain cur h st1 fs1' where l: "chunk_loop getsizeof input (0, [], ?st, ?fs1) = Inr (cur, h, st1, fs1')"
    and m1: "2 \<le> max_num_files st1" by blast
  from chunk_input_succeeds[OF l] obtain result st2 fs2 where
    ch: "chunk_input_into_dump_files getsizeof input ?st ?fs1 = Inr (result, st2, fs2)"
    and m2: "max_num_files st2 = max_num_files st1" by blast
  have pos: "True \<longrightarrow> always_positive getsizeof input (0, [], ?st, ?fs1)"
    using chunk_loop_config(2)[OF cfg' t0'] by simp
  note cr = chunk_input_result[OF n0' pos ch]
  then have d2: "dirs fs2 = dirs ?fs1" by simp
  show ?thesis
  proof (cases result)
    case (Some hm)
    have "rid \<in> dirs fs2" using d2 by simp
    then have "rmtree rid fs2 = Inr (without_tree rid fs2)" by (rule rmtree_existing)
    with mk ch Some show ?thesis by (simp add: groupBy_in_def Let_def)
  next
    case None
    with cr obtain cs where c: "runs_on_disk st2 fs2 cs" "concat cs = strs input"
      "\<forall>c \<in> set cs. c \<noteq> []" by auto
    have tk: "\<forall>c \<in> set cs. tokens c" using tok c(2) tokens_chunks by metis
    have "2 \<le> max_num_files st2 \<or> int (num_files st2) \<le> max_num_files st2" using m1 m2 by simp
    from merge_dump_files_succeeds[OF c(1) tk c(3) this]
    obtain st3 fs3 where mg: "merge_dump_files st2 fs2 = Inr (st3, fs3)" by blast
    from merge_dump_files_runs[OF c(1) tk mg] c(3)
    obtain cs' where c': "runs_on_disk st3 fs3 cs'" "\<forall>c \<in> set cs'. tokens c" "\<forall>c \<in> set cs'. c \<noteq> []"
      by blast
    have ne: "\<forall>r \<in> set (map group_ref cs'). r \<noteq> []" using c'(3) by (simp add: group_ref_Nil_iff)
    from MergeFileIterator_runs[OF runs_on_disk_files[OF c'(1) c'(2)] ne]
    obtain hp where "MergeFileIterator fs3 (map (get_dump_filename st3) [0..<num_files st3]) = Inr hp"
      by blast
    with mk ch None mg show ?thesis
      by (simp add: groupBy_in_def Let_def KeyListIteratorFromDisk_def)
  qed
qed


section \<open>The claims\<close>

subsection \<open>An example run\<close>

text \<open>An empty file system, a size of 28 bytes for every object, and a short stream.\<close>

definition example_fs :: fsys where
  "example_fs = \<lparr>dirs = {}, files = Map.empty\<rparr>"

definition example_getsizeof :: "pyval \<Rightarrow> int" where
  "example_getsizeof v = 28"

definition example_input :: "(int \<times> pyval) list" where
  "example_input = [(1, PyInt 0), (0, PyInt 1), (1, PyInt 2), (5, PyInt 7), (0, PyInt 3)]"

text \<open>What the caller sees of a call of \<^verbatim>\<open>groupBy\<close> followed by the loop over the result.\<close>

datatype outcome = Diverged | Raised error | Emitted "entry list" fsys

definition run_groupBy ::
  "(pyval \<Rightarrow> int) \<Rightarrow> string list \<Rightarrow> gbs \<Rightarrow> (int \<times> pyval) list \<Rightarrow> fsys \<Rightarrow> outcome" where
  "run_groupBy getsizeof candidates st input fs =
     (case groupBy getsizeof candidates st input fs of
        None \<Rightarrow> Diverged
      | Some (Inl (e, fs')) \<Rightarrow> Raised e
      | Some (Inr (it, st', fs')) \<Rightarrow>
          (case exhaust it fs' of Inl (e, fs'') \<Rightarrow> Raised e | Inr (kvs, fs'') \<Rightarrow> Emitted kvs fs''))"


text \<open>The example stream spilled one pair per file: five dump files in the workspace \<open>ws\<close>.\<close>

definition example_gbs :: gbs where
  "example_gbs = (GroupByStatement (Some 2) (Some 1) None None)\<lparr>request_id := Some ''ws''\<rparr>"

definition example_spilled :: "gbs \<times> fsys" where
  "example_spilled =
     (case chunk_input_into_dump_files example_getsizeof example_input example_gbs
             (example_fs\<lparr>dirs := {''ws''}\<rparr>) of
        Inl e \<Rightarrow> (example_gbs, example_fs)
      | Inr (result, st, fs) \<Rightarrow> (st, fs))"

subsection \<open>C8: the defaults of the entry function\<close>

text \<open>
  Claim C8, amended. The module-level \<^verbatim>\<open>groupBy\<close>, called without \<^verbatim>\<open>max_num_files\<close> and
  \<^verbatim>\<open>max_hashmap_entries\<close>, runs a \<^verbatim>\<open>GroupByStatement\<close> with \<^verbatim>\<open>max_num_files = 1000\<close> and
  \<^verbatim>\<open>max_hashmap_entries = 10000000\<close>; the defaults 100 and 1000000 are those of the
  constructor of \<^verbatim>\<open>GroupByStatement\<close>.
\<close>

theorem entry_defaults:
  "groupBy_entry getsizeof candidates input None None max_memory_arg request_id_arg fs =
     groupBy getsizeof candidates
       (GroupByStatement (Some 1000) (Some 10000000)
          (Some (case max_memory_arg of None \<Rightarrow> - 1 | Some m \<Rightarrow> m)) request_id_arg) input fs \<and>
   max_num_files (GroupByStatement None None max_memory_arg request_id_arg) = 100 \<and>
   max_hashmap_entries (GroupByStatement None None max_memory_arg request_id_arg) = 1000000"
  by (simp add: groupBy_entry_def GroupByStatement_def)

text \<open>
  The claim as stated fails: on an empty stream the entry function hands back the state of
  its \<^verbatim>\<open>GroupByStatement\<close>, whose limits are 1000 and 10000000, not 100 and 1000000.
\<close>

theorem entry_defaults_counterexample:
  "(case groupBy_entry example_getsizeof [] [] None None None None example_fs of
      Some (Inr (it, st, fs)) \<Rightarrow> (max_num_files st, max_hashmap_entries st)
    | _ \<Rightarrow> (0, 0)) = (1000, 10000000) \<and>
   (case groupBy_entry example_getsizeof [] [] None None None None example_fs of
      Some (Inr (it, st, fs)) \<Rightarrow> (max_num_files st, max_hashmap_entries st)
    | _ \<Rightarrow> (0, 0)) \<noteq> (100, 1000000)"
  by (simp add: groupBy_entry_def GroupByStatement_def groupBy_def)

subsection \<open>C6: a merge that is not possible\<close>

lemma merge_dump_files_not_possible:
  assumes "max_num_files st < int (num_files st)" "max_num_files st < 2"
    and "request_id st = Some rid" "rid \<in> dirs fs"
  shows "merge_dump_files st fs = Inl (TypeError, without_tree rid fs)"
  using assms by (simp add: merge_dump_files.simps[of st fs] rmtree_existing)

text \<open>
  Claim C6 at a failing input: \<^verbatim>\<open>max_num_files = 1\<close>, \<^verbatim>\<open>max_hashmap_entries = 1\<close> and three
  pairs. The workspace is removed and no merge is done, but what is raised is the
  \<^verbatim>\<open>TypeError\<close> of Python for \<^verbatim>\<open>raise\<close> on a string, not an error of the merge.
\<close>

theorem merge_not_possible_raises_TypeError:
  "(case groupBy example_getsizeof [''ws''] (GroupByStatement (Some 1) (Some 1) None None)
           [(1, PyInt 0), (0, PyInt 1), (1, PyInt 2)] example_fs of
      Some (Inl (e, fs)) \<Rightarrow> e = TypeError \<and> ''ws'' \<notin> dirs fs \<and> files fs ''ws/dump_0'' = None
    | _ \<Rightarrow> False)"
  by code_simp


subsection \<open>C3: the merge loop ends within the fan-in\<close>

lemma ceil_div_half: "2 \<le> m \<Longrightarrow> 2 * ((n + m - 1) div m) \<le> (n::nat) + 1"
proof -
  assume m: "2 \<le> m"
  let ?c = "(n + m - 1) div m"
  have "?c * m \<le> n + m - 1" by simp
  moreover have "?c * 2 \<le> ?c * m" using m by simp
  ultimately have a: "?c * 2 \<le> n + m - 1" by linarith
  show ?thesis
  proof (cases "?c = 0")
    case True then show ?thesis by simp
  next
    case False
    then have "1 \<le> ?c" by simp
    then have "m + (?c - 1) * m = ?c * m" by (metis add.commute le_add_diff_inverse2 mult_eq_if False)
    with \<open>?c * m \<le> n + m - 1\<close> have "(?c - 1) * m \<le> n - 1" by linarith
    moreover have "(?c - 1) * 2 \<le> (?c - 1) * m" using m by simp
    ultimately have "(?c - 1) * 2 \<le> n - 1" by linarith
    moreover have "1 \<le> n"
    proof (rule ccontr)
      assume "\<not> 1 \<le> n"
      then have "n = 0" by simp
      then have "?c = 0" using m by simp
      with False show False by simp
    qed
    ultimately show ?thesis using \<open>1 \<le> ?c\<close> by linarith
  qed
qed

text \<open>
  Claim C3, amended. For every state with \<open>max_num_files \<ge> 2\<close>: the function of the merge
  loop is total and, where it returns, \<open>num_files \<le> max_num_files\<close>; a pass over \<open>n\<close> runs
  leaves \<open>ceil(n / m)\<close> runs, which is fewer than \<open>n\<close> inside the loop and at most
  \<open>ceil(n / 2)\<close>; and over well-formed, non-empty runs the loop does return.
\<close>

theorem merge_loop_bound:
  assumes "2 \<le> max_num_files st"
  shows "(\<forall>st' fs'. merge_dump_files st fs = Inr (st', fs') \<longrightarrow> int (num_files st') \<le> max_num_files st') \<and>
         (\<forall>cur fs1. merge_pass st (range_step (num_files st) (nat (max_num_files st))) 0 fs = Inr (cur, fs1) \<longrightarrow>
            cur = (num_files st + nat (max_num_files st) - 1) div nat (max_num_files st) \<and>
            2 * cur \<le> num_files st + 1 \<and>
            (max_num_files st < int (num_files st) \<longrightarrow> cur < num_files st)) \<and>
         (\<forall>cs. runs_on_disk st fs cs \<and> (\<forall>c \<in> set cs. tokens c \<and> c \<noteq> []) \<longrightarrow>
            (\<exists>st' fs'. merge_dump_files st fs = Inr (st', fs')))"
proof (intro conjI allI impI)
  fix st' fs' assume "merge_dump_files st fs = Inr (st', fs')"
  from merge_dump_files_keeps[OF this] show "int (num_files st') \<le> max_num_files st'" by simp
next
  fix cur fs1
  assume mp: "merge_pass st (range_step (num_files st) (nat (max_num_files st))) 0 fs = Inr (cur, fs1)"
  from merge_pass_count[OF mp]
  show c: "cur = (num_files st + nat (max_num_files st) - 1) div nat (max_num_files st)"
    by (simp add: length_range_step)
  have m: "2 \<le> nat (max_num_files st)" using assms by simp
  show "2 * cur \<le> num_files st + 1" unfolding c by (rule ceil_div_half[OF m])
  assume "max_num_files st < int (num_files st)"
  then have "nat (max_num_files st) < num_files st" using assms by simp
  from ceil_div_less[OF m this] show "cur < num_files st" unfolding c .
next
  fix cs assume a: "runs_on_disk st fs cs \<and> (\<forall>c \<in> set cs. tokens c \<and> c \<noteq> [])"
  then have "runs_on_disk st fs cs" "\<forall>c \<in> set cs. tokens c" "\<forall>c \<in> set cs. c \<noteq> []" by auto
  from merge_dump_files_succeeds[OF this] assms
  show "\<exists>st' fs'. merge_dump_files st fs = Inr (st', fs')" by simp
qed

theorem merge_loop_bound_witness:
  "2 \<le> max_num_files (fst example_spilled) \<and> num_files (fst example_spilled) = 5 \<and>
   (case merge_dump_files (fst example_spilled) (snd example_spilled) of
      Inl e \<Rightarrow> False
    | Inr (st', fs') \<Rightarrow> num_files st' = 2 \<and> num_merge_stages st' = 2 \<and>
        int (num_files st') \<le> max_num_files st')"
proof -
  have m: "2 \<le> max_num_files (fst example_spilled)" by code_simp
  have n: "num_files (fst example_spilled) = 5" by code_simp
  have e: "(case merge_dump_files (fst example_spilled) (snd example_spilled) of
      Inl e \<Rightarrow> False | Inr (st', fs') \<Rightarrow> num_files st' = 2 \<and> num_merge_stages st' = 2)"
    by code_simp
  then obtain st' fs' where r: "merge_dump_files (fst example_spilled) (snd example_spilled) = Inr (st', fs')"
    and v: "num_files st' = 2" "num_merge_stages st' = 2"
    by (auto split: sum.splits)
  from merge_loop_bound[OF m, of "snd example_spilled"] r
  have "int (num_files st') \<le> max_num_files st'" by blast
  with m n r v show ?thesis by simp
qed

text \<open>
  The claim as stated fails where it says that each pass divides the run count by at
  least 2: with \<open>max_num_files = 2\<close> a pass over three runs leaves two.
\<close>

definition three_runs :: "gbs \<times> fsys" where
  "three_runs =
     (case chunk_input_into_dump_files example_getsizeof [(1, PyInt 0), (0, PyInt 1), (1, PyInt 2)]
             example_gbs (example_fs\<lparr>dirs := {''ws''}\<rparr>) of
        Inl e \<Rightarrow> (example_gbs, example_fs)
      | Inr (result, st, fs) \<Rightarrow> (st, fs))"

theorem merge_pass_halves_counterexample:
  "num_files (fst three_runs) = 3 \<and> max_num_files (fst three_runs) = 2 \<and>
   (case merge_pass (fst three_runs) (range_step 3 2) 0 (snd three_runs) of
      Inl e \<Rightarrow> 0 | Inr (cur, fs') \<Rightarrow> cur) = 2 \<and>
   \<not> 2 * 2 \<le> (3::nat)"
  by (intro conjI; code_simp)


subsection \<open>C9: a pass never writes over a run it has not read\<close>

text \<open>
  Claim C9. In a pass with \<open>max_num_files = m \<ge> 2\<close> over \<open>n\<close> runs, iteration \<open>j\<close> of the loop
  merges the group that starts at index \<open>j * m\<close> into slot \<open>j\<close>: every source of that group
  has an index of at least \<open>j\<close>, a greater one when \<open>j \<ge> 1\<close>, and every source of a later
  group has a greater index than \<open>j\<close>. So over well-formed runs a pass that returns leaves
  in every slot the grouping of all pairs of its group: nothing is overwritten before it
  has been read.
\<close>

theorem pass_slots_below_sources:
  assumes "2 \<le> max_num_files st"
  shows "range_step (num_files st) (nat (max_num_files st)) =
           map (\<lambda>j. j * nat (max_num_files st)) [0..<length (range_step (num_files st) (nat (max_num_files st)))] \<and>
         (\<forall>j < length (range_step (num_files st) (nat (max_num_files st))).
            merge_pass st (map (\<lambda>j. j * nat (max_num_files st))
                             [j..<length (range_step (num_files st) (nat (max_num_files st)))]) j fs =
              (case merge_group st (j * nat (max_num_files st)) j fs of
                 Inl e \<Rightarrow> Inl e
               | Inr fs' \<Rightarrow>
                   merge_pass st (map (\<lambda>j. j * nat (max_num_files st))
                                    [Suc j..<length (range_step (num_files st) (nat (max_num_files st)))])
                     (Suc j) fs') \<and>
            (\<forall>i \<in> set (group_ids st (j * nat (max_num_files st))). j \<le> i \<and> (1 \<le> j \<longrightarrow> j < i)) \<and>
            (\<forall>j'. j < j' \<longrightarrow> (\<forall>i \<in> set (group_ids st (j' * nat (max_num_files st))). j < i))) \<and>
         (\<forall>cs cur fs'. runs_on_disk st fs cs \<and> (\<forall>c \<in> set cs. tokens c) \<and>
            merge_pass st (range_step (num_files st) (nat (max_num_files st))) 0 fs = Inr (cur, fs') \<longrightarrow>
            (\<forall>j < cur. disk_run st fs' j (group_chunk st cs j)))"
proof (intro conjI allI impI)
  let ?m = "nat (max_num_files st)"
  let ?G = "length (range_step (num_files st) ?m)"
  have m: "2 \<le> ?m" using assms by simp
  show rs: "range_step (num_files st) ?m = map (\<lambda>j. j * ?m) [0..<?G]"
    by (simp add: range_step_def)
  fix j assume j: "j < ?G"
  then have up: "[j..<?G] = j # [Suc j..<?G]" by (simp add: upt_conv_Cons)
  show "merge_pass st (map (\<lambda>j. j * ?m) [j..<?G]) j fs =
          (case merge_group st (j * ?m) j fs of Inl e \<Rightarrow> Inl e
           | Inr fs' \<Rightarrow> merge_pass st (map (\<lambda>j. j * ?m) [Suc j..<?G]) (Suc j) fs')"
    unfolding up by simp
  have jm: "j \<le> j * ?m" using m by simp
  have jm': "j < j * ?m" if "1 \<le> j" using m that by simp
  show "\<forall>i \<in> set (group_ids st (j * ?m)). j \<le> i \<and> (1 \<le> j \<longrightarrow> j < i)"
  proof (intro ballI conjI impI)
    fix i assume "i \<in> set (group_ids st (j * ?m))"
    then have i: "j * ?m \<le> i" by (simp add: group_ids_def)
    with jm show "j \<le> i" by linarith
    assume "1 \<le> j"
    from jm'[OF this] i show "j < i" by linarith
  qed
  fix j' assume "j < j'"
  then have "Suc j \<le> j'" by simp
  then have "Suc j * ?m \<le> j' * ?m" by (rule mult_le_mono1)
  moreover have "Suc j * ?m = ?m + j * ?m" by simp
  moreover have "0 < ?m" using m by simp
  ultimately have "j < j' * ?m" using jm by linarith
  moreover have "j' * ?m \<le> i" if "i \<in> set (group_ids st (j' * ?m))" for i
    using that by (simp add: group_ids_def)
  ultimately show "\<forall>i \<in> set (group_ids st (j' * ?m)). j < i" by fastforce
next
  fix cs cur fs' j
  let ?m = "nat (max_num_files st)"
  assume a: "runs_on_disk st fs cs \<and> (\<forall>c \<in> set cs. tokens c) \<and>
            merge_pass st (range_step (num_files st) ?m) 0 fs = Inr (cur, fs')" and j: "j < cur"
  then have n: "num_files st = length cs" and r: "\<forall>i < length cs. disk_run st fs i (cs ! i)"
    and tk: "\<forall>c \<in> set cs. tokens c" by (auto simp: runs_on_disk_def)
  have m1: "1 \<le> max_num_files st" using assms by simp
  let ?G = "(length cs + ?m - 1) div ?m"
  from a have mp: "merge_pass st (map (\<lambda>j. j * ?m) [0..<?G]) 0 fs = Inr (cur, fs')"
    by (simp add: range_step_def n)
  from merge_pass_runs[OF tk n m1 refl, of 0 fs cur fs'] r mp j
  show "disk_run st fs' j (group_chunk st cs j)" by simp
qed

theorem pass_slots_below_sources_witness:
  "2 \<le> max_num_files (fst example_spilled) \<and>
   range_step (num_files (fst example_spilled)) (nat (max_num_files (fst example_spilled))) = [0, 2, 4] \<and>
   group_ids (fst example_spilled) 2 = [2, 3] \<and>
   (case merge_pass (fst example_spilled) [0, 2, 4] 0 (snd example_spilled) of
      Inl e \<Rightarrow> None
    | Inr (cur, fs') \<Rightarrow> files fs' ''ws/dump_1'') =
     Some (run_text [(1, [''2'']), (5, [''7''])])"
proof -
  have m: "2 \<le> max_num_files (fst example_spilled)" by code_simp
  have g: "group_ids (fst example_spilled) 2 = [2, 3]" by code_simp
  have f: "(case merge_pass (fst example_spilled) [0, 2, 4] 0 (snd example_spilled) of
      Inl e \<Rightarrow> None | Inr (cur, fs') \<Rightarrow> files fs' ''ws/dump_1'') =
     Some (run_text [(1, [''2'']), (5, [''7''])])" by code_simp
  have l: "length (range_step (num_files (fst example_spilled)) (nat (max_num_files (fst example_spilled)))) = 3"
    by code_simp
  from pass_slots_below_sources[OF m, of "snd example_spilled"]
  have "range_step (num_files (fst example_spilled)) (nat (max_num_files (fst example_spilled))) =
        map (\<lambda>j. j * nat (max_num_files (fst example_spilled)))
          [0..<length (range_step (num_files (fst example_spilled)) (nat (max_num_files (fst example_spilled))))]"
    by blast
  also have "\<dots> = [0, 2, 4]" unfolding l by code_simp
  finally show ?thesis using m g f by simp
qed


subsection \<open>C10: no dump file is empty\<close>

lemma universal_newlines_first_line:
  "carriage_return \<notin> set a \<Longrightarrow> universal_newlines (a @ newline # b) = a @ newline # universal_newlines b"
proof (induction a)
  case Nil
  have "newline \<noteq> carriage_return" by (simp add: newline_def carriage_return_def)
  then show ?case by (cases b) auto
next
  case (Cons c a)
  then show ?case by (cases "a @ newline # b") auto
qed

lemma open_first_key:
  assumes "files fs p = Some (run_text (e # r))"
  shows "\<exists>rest. open_read fs p = Inr (str_int (fst e) @ newline # rest)"
proof -
  have "run_text (e # r) = str_int (fst e) @ newline # (join (snd e) @ newline # run_text r)"
    by (simp add: run_text_def entry_text_def)
  with assms show ?thesis
    by (simp add: open_read_def universal_newlines_first_line cr_not_in_str_int)
qed

lemma push_first_keys_started:
  "\<forall>f \<in> set fs. \<exists>k rest. f = str_int k @ newline # rest \<Longrightarrow> \<exists>h. push_first_keys n fs h0 = Inr h"
proof (induction fs arbitrary: n h0)
  case Nil then show ?case by simp
next
  case (Cons f fs)
  then obtain k rest where f: "f = str_int k @ newline # rest" by auto
  have "readline f = Some (str_int k @ [newline], rest)"
    unfolding f by (rule readline_line[OF str_int_no_newline])
  moreover from Cons.IH[of "Suc n" "heappush h0 (k, n, rest)"] Cons.prems
  obtain h where "push_first_keys (Suc n) fs (heappush h0 (k, n, rest)) = Inr h" by auto
  ultimately show ?case by (simp add: int_of_str_str_int)
qed

lemma open_all_started:
  "\<forall>p \<in> set ps. \<exists>e r. files fs p = Some (run_text (e # r)) \<Longrightarrow>
   \<exists>hs. open_all fs ps = Inr hs \<and> (\<forall>f \<in> set hs. \<exists>k rest. f = str_int k @ newline # rest)"
proof (induction ps)
  case Nil then show ?case by simp
next
  case (Cons p ps)
  then obtain e r where "files fs p = Some (run_text (e # r))" by auto
  from open_first_key[OF this] obtain rest where o: "open_read fs p = Inr (str_int (fst e) @ newline # rest)"
    by blast
  from Cons obtain hs where "open_all fs ps = Inr hs" "\<forall>f \<in> set hs. \<exists>k rest. f = str_int k @ newline # rest"
    by auto
  with o show ?case by auto
qed

lemma MergeFileIterator_started:
  assumes "\<forall>p \<in> set ps. \<exists>e r. files fs p = Some (run_text (e # r))"
  shows "\<exists>h. MergeFileIterator fs ps = Inr h"
proof -
  from open_all_started[OF assms] obtain hs where hs: "open_all fs ps = Inr hs"
    "\<forall>f \<in> set hs. \<exists>k rest. f = str_int k @ newline # rest" by blast
  from push_first_keys_started[OF hs(2), of 0 "[]"] hs(1) show ?thesis
    by (auto simp: MergeFileIterator_def)
qed

lemma push_first_keys_empty_file:
  "\<forall>f \<in> set fs1. \<exists>k rest. f = str_int k @ newline # rest \<Longrightarrow>
   push_first_keys n (fs1 @ [] # fs2) h0 = Inl StopIteration"
proof (induction fs1 arbitrary: n h0)
  case Nil then show ?case by (simp add: readline_def)
next
  case (Cons f fs1)
  then obtain k rest where f: "f = str_int k @ newline # rest" by auto
  have "readline f = Some (str_int k @ [newline], rest)"
    unfolding f by (rule readline_line[OF str_int_no_newline])
  with Cons show ?case by (simp add: int_of_str_str_int)
qed

lemma open_all_append:
  "open_all fs ps1 = Inr hs1 \<Longrightarrow> open_all fs ps2 = Inr hs2 \<Longrightarrow> open_all fs (ps1 @ ps2) = Inr (hs1 @ hs2)"
  by (induction ps1 arbitrary: hs1) (auto split: sum.splits)

lemma open_all_existing: "\<forall>p \<in> set ps. files fs p \<noteq> None \<Longrightarrow> \<exists>hs. open_all fs ps = Inr hs"
  by (induction ps) (auto simp: open_read_def)

lemma MergeFileIterator_empty_file:
  assumes "\<forall>q \<in> set ps1. \<exists>e r. files fs q = Some (run_text (e # r))"
    and "files fs p = Some []" and "\<forall>q \<in> set ps2. files fs q \<noteq> None"
  shows "MergeFileIterator fs (ps1 @ p # ps2) = Inl StopIteration"
proof -
  from open_all_started[OF assms(1)] obtain hs1 where h1: "open_all fs ps1 = Inr hs1"
    "\<forall>f \<in> set hs1. \<exists>k rest. f = str_int k @ newline # rest" by blast
  from open_all_existing[OF assms(3)] obtain hs2 where h2: "open_all fs ps2 = Inr hs2" by blast
  have "open_all fs (p # ps2) = Inr ([] # hs2)" using assms(2) h2 by (simp add: open_read_def)
  from open_all_append[OF h1(1) this] push_first_keys_empty_file[OF h1(2)]
  show ?thesis by (simp add: MergeFileIterator_def)
qed

text \<open>
  Claim C10. When \<open>max_hashmap_entries\<close> is at least 1 at every spill check, every dump
  file that the accumulator leaves starts with an entry, so the constructor of the
  iterator reads a first key from each of them and returns; over a list that holds an
  empty file, after files that start with an entry, the constructor raises
  \<^verbatim>\<open>StopIteration\<close>.
\<close>

theorem dump_files_nonempty:
  assumes "always_positive getsizeof input (0, [], st, fs)" and "num_files st = 0"
    and "chunk_input_into_dump_files getsizeof input st fs = Inr (result, st', fs')"
  shows "(\<forall>i < num_files st'. \<exists>e r. files fs' (get_dump_filename st' i) = Some (run_text (e # r))) \<and>
         (\<exists>h. MergeFileIterator fs' (map (get_dump_filename st') [0..<num_files st']) = Inr h) \<and>
         (\<forall>fs0 ps1 p ps2. (\<forall>q \<in> set ps1. \<exists>e r. files fs0 q = Some (run_text (e # r))) \<and>
              files fs0 p = Some [] \<and> (\<forall>q \<in> set ps2. files fs0 q \<noteq> None) \<longrightarrow>
              MergeFileIterator fs0 (ps1 @ p # ps2) = Inl StopIteration)"
proof -
  have pos: "True \<longrightarrow> always_positive getsizeof input (0, [], st, fs)" using assms(1) by simp
  note cr = chunk_input_result[OF assms(2) pos assms(3)]
  have files: "\<forall>i < num_files st'. \<exists>e r. files fs' (get_dump_filename st' i) = Some (run_text (e # r))"
  proof (cases result)
    case (Some h)
    with cr show ?thesis by simp
  next
    case None
    with cr obtain cs where c: "runs_on_disk st' fs' cs" "\<forall>c \<in> set cs. c \<noteq> []" by auto
    show ?thesis
    proof (intro allI impI)
      fix i assume "i < num_files st'"
      with c(1) have i: "i < length cs" and f: "files fs' (get_dump_filename st' i) = Some (run_text (group_ref (cs ! i)))"
        by (auto simp: runs_on_disk_def disk_run_def)
      from i c(2) have "group_ref (cs ! i) \<noteq> []" by (simp add: group_ref_Nil_iff)
      then obtain e r where "group_ref (cs ! i) = e # r" by (cases "group_ref (cs ! i)") auto
      with f have "files fs' (get_dump_filename st' i) = Some (run_text (e # r))" by simp
      then show "\<exists>e r. files fs' (get_dump_filename st' i) = Some (run_text (e # r))" by (intro exI)
    qed
  qed
  moreover have "\<exists>h. MergeFileIterator fs' (map (get_dump_filename st') [0..<num_files st']) = Inr h"
    by (rule MergeFileIterator_started) (use files in auto)
  ultimately show ?thesis using MergeFileIterator_empty_file by blast
qed

theorem dump_files_nonempty_witness:
  "num_files example_gbs = 0 \<and> num_files (fst example_spilled) = 5 \<and>
   (\<exists>e r. files (snd example_spilled) (get_dump_filename (fst example_spilled) 4) = Some (run_text (e # r))) \<and>
   (\<exists>h. MergeFileIterator (snd example_spilled)
          (map (get_dump_filename (fst example_spilled)) [0..<num_files (fst example_spilled)]) = Inr h)"
proof -
  have ap: "always_positive example_getsizeof example_input (0, [], example_gbs, example_fs\<lparr>dirs := {''ws''}\<rparr>)"
    by (rule always_positive_settled) (simp_all add: settled_def example_gbs_def GroupByStatement_def)
  have n0: "num_files example_gbs = 0" by (simp add: example_gbs_def GroupByStatement_def)
  have "(case chunk_input_into_dump_files example_getsizeof example_input example_gbs
                (example_fs\<lparr>dirs := {''ws''}\<rparr>) of
           Inl e \<Rightarrow> False | Inr (result, st', fs') \<Rightarrow> num_files st' = 5)"
    by code_simp
  then obtain result st' fs' where r: "chunk_input_into_dump_files example_getsizeof example_input example_gbs
                (example_fs\<lparr>dirs := {''ws''}\<rparr>) = Inr (result, st', fs')" and n: "num_files st' = 5"
    by (auto split: sum.splits)
  have sp: "example_spilled = (st', fs')" using r by (simp add: example_spilled_def)
  have f: "fst example_spilled = st'" "snd example_spilled = fs'" by (simp_all add: sp)
  from dump_files_nonempty[OF ap n0 r]
  have a: "\<forall>i < num_files st'. \<exists>e r. files fs' (get_dump_filename st' i) = Some (run_text (e # r))"
    and b: "\<exists>h. MergeFileIterator fs' (map (get_dump_filename st') [0..<num_files st']) = Inr h"
    by blast+
  from a n have "\<exists>e r. files fs' (get_dump_filename st' 4) = Some (run_text (e # r))" by simp
  with b n n0 show ?thesis unfolding f by simp
qed


subsection \<open>C4: the number of values held in memory\<close>

definition within_bound :: "chunk_state \<Rightarrow> bool" where
  "within_bound s = (case s of (cur, h, st, fs) \<Rightarrow>
     cur = entry_count h \<and> int cur \<le> max 1 (max_hashmap_entries st) \<and>
     (total_num_entries st = 0 \<longrightarrow> cur = 0))"

lemma chunk_step_within_bound:
  assumes "within_bound s" and "chunk_step getsizeof kv s = Inr s'"
  shows "within_bound s'"
proof -
  obtain cur h st fs where s: "s = (cur, h, st, fs)" by (cases s)
  obtain cur1 h1 st1 fs1 where sp: "spill_if_full s = (cur1, h1, st1, fs1)" by (cases "spill_if_full s")
  from assms(1) s have a: "cur = entry_count h" "int cur \<le> max 1 (max_hashmap_entries st)"
    "total_num_entries st = 0 \<longrightarrow> cur = 0" by (auto simp: within_bound_def)
  from sp s a have b: "cur1 = entry_count h1" "total_num_entries st1 = total_num_entries st"
    "max_hashmap_entries st1 = max_hashmap_entries st" "max_memory st1 = max_memory st"
    "cur1 = 0 \<or> int cur1 < max_hashmap_entries st" "total_num_entries st = 0 \<longrightarrow> cur1 = 0"
    by (auto simp: spill_if_full_def dump_hashmap_to_disk_def entry_count_def split: if_splits)
  from assms(2) sp have ins: "insert_pair getsizeof kv (cur1, h1, st1, fs1) = Inr s'"
    by (simp add: chunk_step_def)
  show ?thesis
  proof (cases "max_memory st1 > 0 \<and> total_num_entries st1 = 0")
    case True
    with b have "cur1 = 0" by simp
    with ins True b(1) show ?thesis
      by (auto simp: insert_pair_def Let_def within_bound_def entry_count_hashmap_append split: if_splits)
  next
    case False
    with ins have "s' = (cur1 + 1, hashmap_append (fst kv) (str_of (snd kv)) h1,
                         st1\<lparr>total_num_entries := total_num_entries st1 + 1\<rparr>, fs1)"
      by (auto simp: insert_pair_def Let_def split: if_splits)
    with b show ?thesis by (auto simp: within_bound_def entry_count_hashmap_append)
  qed
qed

lemma chunk_loop_within_bound:
  "within_bound s \<Longrightarrow> chunk_loop getsizeof input s = Inr s' \<Longrightarrow> within_bound s'"
proof (induction input arbitrary: s)
  case Nil then show ?case by simp
next
  case (Cons kv input)
  from Cons.prems(2) obtain s1 where s1: "chunk_step getsizeof kv s = Inr s1"
    and l: "chunk_loop getsizeof input s1 = Inr s'" by (auto split: sum.splits)
  from Cons.IH[OF chunk_step_within_bound[OF Cons.prems(1) s1] l] show ?case .
qed

text \<open>
  Claim C4, amended. After any number of pairs of any input, under any configuration, the
  counter \<open>current_num_entries\<close> is the number of values in the hashmap and that number is at
  most \<open>max(1, max_hashmap_entries)\<close>, with the value of \<open>max_hashmap_entries\<close> that the
  auto-tune has left; so it is at most \<open>max_hashmap_entries\<close> whenever that is 1 or more.
  After the spill check that follows, the hashmap holds fewer than \<open>max_hashmap_entries\<close>
  values when that is 1 or more.
\<close>

theorem memory_bound:
  assumes "chunk_loop getsizeof (take n input) (0, [], st, fs) = Inr (cur, h, st', fs')"
  shows "cur = entry_count h \<and> int (entry_count h) \<le> max 1 (max_hashmap_entries st') \<and>
         (1 \<le> max_hashmap_entries st' \<longrightarrow> int (entry_count h) \<le> max_hashmap_entries st') \<and>
         (case spill_if_full (cur, h, st', fs') of (cur1, h1, st1, fs1) \<Rightarrow>
            cur1 = entry_count h1 \<and> entry_count h1 \<le> entry_count h \<and>
            max_hashmap_entries st1 = max_hashmap_entries st' \<and>
            (1 \<le> max_hashmap_entries st' \<longrightarrow> int (entry_count h1) < max_hashmap_entries st'))"
proof -
  have "within_bound (0, [], st, fs)" by (simp add: within_bound_def entry_count_def)
  from chunk_loop_within_bound[OF this assms]
  have a: "cur = entry_count h" "int cur \<le> max 1 (max_hashmap_entries st')"
    by (auto simp: within_bound_def)
  then show ?thesis
    by (auto simp: spill_if_full_def dump_hashmap_to_disk_def entry_count_def split: if_splits)
qed

theorem memory_bound_witness:
  "(case chunk_loop example_getsizeof (take 3 example_input)
           (0, [], example_gbs, example_fs\<lparr>dirs := {''ws''}\<rparr>) of
      Inl e \<Rightarrow> False
    | Inr (cur, h, st', fs') \<Rightarrow> cur = 1 \<and> entry_count h = 1 \<and> max_hashmap_entries st' = 1 \<and>
        int (entry_count h) \<le> max_hashmap_entries st' \<and>
        fst (spill_if_full (cur, h, st', fs')) = 0)"
proof -
  have "(case chunk_loop example_getsizeof (take 3 example_input)
           (0, [], example_gbs, example_fs\<lparr>dirs := {''ws''}\<rparr>) of
      Inl e \<Rightarrow> False
    | Inr (cur, h, st', fs') \<Rightarrow> cur = 1 \<and> max_hashmap_entries st' = 1)" by code_simp
  then obtain cur h st' fs' where r: "chunk_loop example_getsizeof (take 3 example_input)
           (0, [], example_gbs, example_fs\<lparr>dirs := {''ws''}\<rparr>) = Inr (cur, h, st', fs')"
    and v: "cur = 1" "max_hashmap_entries st' = 1" by (auto split: sum.splits)
  from memory_bound[OF r] v r show ?thesis by (auto split: prod.splits)
qed

text \<open>
  The claim as stated fails for the configurations in which \<open>max_hashmap_entries\<close> is less
  than 1 at an insertion: with \<open>max_hashmap_entries = 0\<close>, and with \<open>max_memory = 50\<close> for a
  pair of 56 bytes, which the auto-tune turns into \<open>max_hashmap_entries = 0\<close>, the hashmap
  holds one value after the first pair.
\<close>

theorem memory_bound_counterexample:
  "(case chunk_loop example_getsizeof [(1, PyInt 0)]
           (0, [], (GroupByStatement None (Some 0) None None)\<lparr>request_id := Some ''ws''\<rparr>,
            example_fs\<lparr>dirs := {''ws''}\<rparr>) of
      Inl e \<Rightarrow> False
    | Inr (cur, h, st', fs') \<Rightarrow> entry_count h = 1 \<and> max_hashmap_entries st' = 0 \<and>
        \<not> int (entry_count h) \<le> max_hashmap_entries st') \<and>
   (case chunk_loop example_getsizeof [(1, PyInt 0)]
           (0, [], (GroupByStatement None None (Some 50) None)\<lparr>request_id := Some ''ws''\<rparr>,
            example_fs\<lparr>dirs := {''ws''}\<rparr>) of
      Inl e \<Rightarrow> False
    | Inr (cur, h, st', fs') \<Rightarrow> entry_count h = 1 \<and> max_hashmap_entries st' = 0 \<and>
        \<not> int (entry_count h) \<le> max_hashmap_entries st')"
  by (intro conjI; code_simp)


subsection \<open>C5: the workspace lives until the last entry is taken\<close>

text \<open>
  The file system after each \<^verbatim>\<open>next\<close> of the caller's loop
  \<^verbatim>\<open>while it.hasNext(): next(it)\<close>, up to the first call that raises.
\<close>

function next_trace :: "result_iterator \<Rightarrow> fsys \<Rightarrow> fsys list" where
  "next_trace it fs =
     (if hasNext it then
        (case next_result it fs of Inl e \<Rightarrow> []
         | Inr ((kv, it'), fs') \<Rightarrow> fs' # next_trace it' fs')
      else [])"
  by pat_completeness auto
termination
  by (relation "measure (\<lambda>(it, fs). iter_size it)") (auto simp: next_result_size)

declare next_trace.simps [simp del]

lemma disk_next_workspace:
  assumes "disk_next d f = Inr ((kv, d'), f')"
  shows "di_request_id d' = di_request_id d \<and>
         (if disk_hasNext d' then f' = f
          else f' = without_tree (di_request_id d) f \<and> di_request_id d \<in> dirs f)"
  using assms
  by (auto simp: disk_next_def Let_def disk_hasNext_def split: sum.splits if_splits prod.splits
           dest: rmtree_result)

lemma disk_next_exhausted: "\<not> disk_hasNext d \<Longrightarrow> disk_next d f = Inl (StopIteration, f)"
  by (simp add: disk_next_def disk_hasNext_def hasNext_merge_def merge_next_def)

lemma exhaust_disk_trace:
  assumes "exhaust (FromDisk d) f = Inr (kvs, f'')" and "disk_hasNext d"
  shows "kvs \<noteq> [] \<and> f'' = without_tree (di_request_id d) f \<and> di_request_id d \<in> dirs f \<and>
         next_trace (FromDisk d) f = replicate (length kvs - 1) f @ [without_tree (di_request_id d) f]"
  using assms
proof (induction "heap_size (di_merge_file_iterator d)" arbitrary: d kvs rule: less_induct)
  case less
  from less.prems(2) have hn: "hasNext (FromDisk d)" by simp
  from less.prems(1) hn obtain kv it' f1 kvs' where
    nx: "next_result (FromDisk d) f = Inr ((kv, it'), f1)"
    and ex: "exhaust it' f1 = Inr (kvs', f'')" and kvs: "kvs = kv # kvs'"
    by (subst (asm) exhaust.simps) (auto split: sum.splits)
  from nx obtain d' where it': "it' = FromDisk d'" and dn: "disk_next d f = Inr ((kv, d'), f1)"
    by (auto split: sum.splits)
  note w = disk_next_workspace[OF dn]
  from next_result_size[OF nx] it'
  have sz: "heap_size (di_merge_file_iterator d') < heap_size (di_merge_file_iterator d)" by simp
  have tr: "next_trace (FromDisk d) f = f1 # next_trace (FromDisk d') f1"
    using hn nx it' by (subst next_trace.simps) simp
  show ?case
  proof (cases "disk_hasNext d'")
    case True
    with w have f1: "f1 = f" and rid: "di_request_id d' = di_request_id d" by simp_all
    from less.hyps[OF sz ex[unfolded it' f1] True] rid
    have ih: "kvs' \<noteq> []" "f'' = without_tree (di_request_id d) f" "di_request_id d \<in> dirs f"
      "next_trace (FromDisk d') f = replicate (length kvs' - 1) f @ [without_tree (di_request_id d) f]"
      by simp_all
    from ih(1) have "replicate (length kvs - 1) f = f # replicate (length kvs' - 1) f"
      unfolding kvs by (cases kvs') simp_all
    with ih tr f1 kvs show ?thesis by simp
  next
    case False
    with w have f1: "f1 = without_tree (di_request_id d) f" and rid: "di_request_id d \<in> dirs f"
      by simp_all
    from False have nh: "\<not> hasNext (FromDisk d')" by simp
    from ex it' nh have e: "kvs' = []" "f'' = f1" by (subst (asm) exhaust.simps, simp)+
    have "next_trace (FromDisk d') f1 = []" using nh by (subst next_trace.simps) simp
    with tr e f1 rid kvs show ?thesis by simp
  qed
qed

text \<open>
  Claim C5. When \<^verbatim>\<open>groupBy\<close> returns the iterator over the disk, the workspace directory
  exists and the iterator has an entry. If the caller's loop runs to the end, it has taken
  at least one entry, the file system is unchanged after every \<^verbatim>\<open>next\<close> but the last, and
  after the last it is the file system without the workspace and everything below it: the
  directory is gone and so is every dump file. A \<^verbatim>\<open>next\<close> on the exhausted iterator
  raises \<^verbatim>\<open>StopIteration\<close> and leaves the file system alone. Over values that are
  non-empty and free of whitespace the loop does run to the end.
\<close>

theorem workspace_removed_by_last_next:
  assumes "groupBy getsizeof candidates st input fs = Some (Inr (FromDisk it, st', fs'))"
  shows "di_request_id it \<in> dirs fs' \<and> disk_hasNext it \<and>
         (\<forall>kvs fs''. exhaust (FromDisk it) fs' = Inr (kvs, fs'') \<longrightarrow>
            kvs \<noteq> [] \<and>
            next_trace (FromDisk it) fs' =
              replicate (length kvs - 1) fs' @ [without_tree (di_request_id it) fs'] \<and>
            fs'' = without_tree (di_request_id it) fs' \<and>
            di_request_id it \<notin> dirs fs'' \<and>
            (\<forall>p. in_dir (di_request_id it) p \<longrightarrow> files fs'' p = None) \<and>
            (\<forall>i. files fs'' (get_dump_filename st' i) = None)) \<and>
         (\<forall>d f. \<not> disk_hasNext d \<longrightarrow> disk_next d f = Inl (StopIteration, f)) \<and>
         (tokens (strs input) \<longrightarrow> (\<exists>kvs fs''. exhaust (FromDisk it) fs' = Inr (kvs, fs'')))"
proof -
  let ?st0 = "st\<lparr>num_files := 0, total_num_entries := 0, spills := 0, num_merge_stages := 0\<rparr>"
  from assms obtain rid where g: "groupBy_in getsizeof rid ?st0 input fs = Inr (FromDisk it, st', fs')"
    by (auto simp: groupBy_def Let_def KeyListIteratorFromMemory_def split: option.splits if_splits)
  from groupBy_in_disk[OF g] have d: "di_request_id it = rid" "rid \<in> dirs fs'" "disk_hasNext it"
    "request_id st' = Some rid" by simp_all
  have ex: "kvs \<noteq> [] \<and>
            next_trace (FromDisk it) fs' = replicate (length kvs - 1) fs' @ [without_tree rid fs'] \<and>
            fs'' = without_tree rid fs' \<and> rid \<notin> dirs fs'' \<and>
            (\<forall>p. in_dir rid p \<longrightarrow> files fs'' p = None) \<and>
            (\<forall>i. files fs'' (get_dump_filename st' i) = None)"
    if e: "exhaust (FromDisk it) fs' = Inr (kvs, fs'')" for kvs fs''
  proof -
    from exhaust_disk_trace[OF e d(3)] d(1)
    have t: "kvs \<noteq> []" "fs'' = without_tree rid fs'"
      "next_trace (FromDisk it) fs' = replicate (length kvs - 1) fs' @ [without_tree rid fs']"
      by simp_all
    have "files fs'' (get_dump_filename st' i) = None" for i
      unfolding t(2) by (rule without_tree_gone(2)) (rule in_dir_dump[OF d(4)])
    moreover have "rid \<notin> dirs fs''" unfolding t(2) by (rule without_tree_gone(1))
    moreover have "\<forall>p. in_dir rid p \<longrightarrow> files fs'' p = None"
      unfolding t(2) by (simp add: without_tree_gone(2))
    ultimately show ?thesis using t by simp
  qed
  have tk: "\<exists>kvs fs''. exhaust (FromDisk it) fs' = Inr (kvs, fs'')" if "tokens (strs input)"
    using groupBy_correct[OF assms that] by blast
  from d ex tk disk_next_exhausted show ?thesis by simp
qed

theorem workspace_removed_by_last_next_witness:
  "(case groupBy example_getsizeof [''ws''] (GroupByStatement (Some 2) (Some 1) None None)
           example_input example_fs of
      Some (Inr (FromDisk it, st', fs')) \<Rightarrow>
        di_request_id it = ''ws'' \<and> ''ws'' \<in> dirs fs' \<and> disk_hasNext it \<and>
        (case exhaust (FromDisk it) fs' of
           Inl e \<Rightarrow> False
         | Inr (kvs, fs'') \<Rightarrow> length kvs = 3 \<and>
             next_trace (FromDisk it) fs' = [fs', fs', without_tree ''ws'' fs'] \<and>
             ''ws'' \<notin> dirs fs'' \<and> files fs'' ''ws/dump_0'' = None)
    | _ \<Rightarrow> False)"
proof -
  let ?G = "groupBy example_getsizeof [''ws''] (GroupByStatement (Some 2) (Some 1) None None)
              example_input example_fs"
  have "(case ?G of Some (Inr (FromDisk it, st', fs')) \<Rightarrow> True | _ \<Rightarrow> False)"
    by code_simp
  then obtain it st' fs' where g: "?G = Some (Inr (FromDisk it, st', fs'))"
    by (auto split: option.splits sum.splits result_iterator.splits) (metis result_iterator.exhaust)
  have "(case ?G of Some (Inr (FromDisk it, st', fs')) \<Rightarrow> di_request_id it = ''ws'' | _ \<Rightarrow> False)"
    by code_simp
  with g have r1: "di_request_id it = ''ws''" by simp
  have "(case ?G of Some (Inr (FromDisk it, st', fs')) \<Rightarrow> get_dump_filename st' 0 = ''ws/dump_0''
         | _ \<Rightarrow> False)"
    by code_simp
  with g have r2: "get_dump_filename st' 0 = ''ws/dump_0''" by simp
  note r = r1 r2
  have "(case ?G of Some (Inr (FromDisk it, st', fs')) \<Rightarrow>
           (case exhaust (FromDisk it) fs' of Inl e \<Rightarrow> False | Inr (kvs, fs'') \<Rightarrow> length kvs = 3)
         | _ \<Rightarrow> False)"
    by code_simp
  with g have "(case exhaust (FromDisk it) fs' of Inl e \<Rightarrow> False | Inr (kvs, fs'') \<Rightarrow> length kvs = 3)"
    by simp
  then obtain kvs fs'' where e: "exhaust (FromDisk it) fs' = Inr (kvs, fs'')" and l: "length kvs = 3"
    by (auto split: sum.splits)
  from workspace_removed_by_last_next[OF g]
  have a: "di_request_id it \<in> dirs fs'" "disk_hasNext it"
    and b: "\<forall>kvs fs''. exhaust (FromDisk it) fs' = Inr (kvs, fs'') \<longrightarrow>
            kvs \<noteq> [] \<and>
            next_trace (FromDisk it) fs' =
              replicate (length kvs - 1) fs' @ [without_tree (di_request_id it) fs'] \<and>
            fs'' = without_tree (di_request_id it) fs' \<and>
            di_request_id it \<notin> dirs fs'' \<and>
            (\<forall>p. in_dir (di_request_id it) p \<longrightarrow> files fs'' p = None) \<and>
            (\<forall>i. files fs'' (get_dump_filename st' i) = None)"
    by blast+
  from b e have c: "next_trace (FromDisk it) fs' =
              replicate (length kvs - 1) fs' @ [without_tree (di_request_id it) fs']"
    "di_request_id it \<notin> dirs fs''" "files fs'' (get_dump_filename st' 0) = None" by blast+
  have "replicate (length kvs - 1) fs' = [fs', fs']" using l by (simp add: numeral_2_eq_2)
  with a c r g e l show ?thesis by simp
qed


subsection \<open>C1: the pairs that are emitted\<close>

text \<open>The groups that the iterator emits, flattened into pairs.\<close>

definition flatten :: "entry list \<Rightarrow> (int \<times> string) list" where
  "flatten kvs = concat (map (\<lambda>e. map (Pair (fst e)) (snd e)) kvs)"

lemma group_ref_member:
  assumes "p \<in> set ps"
  shows "(fst p, values_for (fst p) ps) \<in> set (group_ref ps) \<and> snd p \<in> set (values_for (fst p) ps)"
  using assms by (auto simp: group_ref_def values_for_def)

lemma distinct_keys_group_ref: "distinct (map fst (group_ref ps))"
  unfolding keys_group_ref by simp

lemma groupBy_succeeds:
  assumes cfg: "plain_config st \<or> tuned_config getsizeof st input"
    and tok: "tokens (strs input)"
    and r: "resolve_request_id (request_id st) candidates fs = Some r" and nofile: "files fs r = None"
  shows "\<exists>it st' fs'. groupBy getsizeof candidates st input fs = Some (Inr (it, st', fs'))"
proof (cases "input = []")
  case True
  then show ?thesis by (simp add: groupBy_def Let_def)
next
  case False
  let ?st0 = "st\<lparr>num_files := 0, total_num_entries := 0, spills := 0, num_merge_stages := 0\<rparr>"
  have cfg0: "plain_config ?st0 \<or> tuned_config getsizeof ?st0 input"
    using cfg by (auto simp: plain_config_def tuned_config_def split: list.splits)
  from groupBy_in_succeeds[OF cfg0 _ _ tok resolve_request_id_free[OF r] nofile]
  obtain it st' fs' where "groupBy_in getsizeof r ?st0 input fs = Inr (it, st', fs')" by auto
  with False r show ?thesis by (simp add: groupBy_def Let_def)
qed

text \<open>
  Claim C1, amended. For every finite input stream whose values render as non-empty
  strings free of whitespace: whenever \<^verbatim>\<open>groupBy\<close> returns an iterator, the caller's loop
  over it runs to the end, and the groups it emits, flattened, are exactly the multiset of
  the pairs of the input, each value as its string; the keys of the groups are distinct and
  every pair of the input is in the group of its key. This holds on the path through
  memory, on the spill path and after any number of merge passes. \<^verbatim>\<open>groupBy\<close> does return
  an iterator when a request id is found that names no file and the limits are those of a
  plain configuration
  (\<open>max_memory \<le> 0\<close>, \<open>max_hashmap_entries \<ge> 1\<close>, \<open>max_num_files \<ge> 2\<close>) or of a tuned one
  (\<open>max_memory > 0\<close>, \<open>max_hashmap_entries \<ge> 1\<close>, and the first pair fits twice into
  \<open>max_memory\<close>).
\<close>

theorem emitted_pairs:
  assumes "\<forall>kv \<in> set input. str_of (snd kv) \<noteq> [] \<and> (\<forall>c \<in> set (str_of (snd kv)). \<not> isspace c)"
  shows "(\<forall>it st' fs'. groupBy getsizeof candidates st input fs = Some (Inr (it, st', fs')) \<longrightarrow>
            (\<exists>kvs fs''. exhaust it fs' = Inr (kvs, fs'') \<and>
               mset (flatten kvs) = mset (strs input) \<and>
               distinct (map fst kvs) \<and>
               (\<forall>kv \<in> set input. \<exists>vs. (fst kv, vs) \<in> set kvs \<and> str_of (snd kv) \<in> set vs))) \<and>
         ((plain_config st \<or> tuned_config getsizeof st input) \<and>
          (\<exists>rid. resolve_request_id (request_id st) candidates fs = Some rid \<and> files fs rid = None) \<longrightarrow>
            (\<exists>it st' fs'. groupBy getsizeof candidates st input fs = Some (Inr (it, st', fs'))))"
proof (intro conjI allI impI)
  have tok: "tokens (strs input)" using assms by (auto simp: tokens_def strs_def token_def)
  {
    fix it st' fs'
    assume g: "groupBy getsizeof candidates st input fs = Some (Inr (it, st', fs'))"
    from groupBy_correct[OF g tok] obtain fs'' where
      e: "exhaust it fs' = Inr (group_ref (strs input), fs'')" by blast
    have m: "mset (flatten (group_ref (strs input))) = mset (strs input)"
      unfolding flatten_def by (rule flat_group_ref_mset)
    have p: "\<exists>vs. (fst kv, vs) \<in> set (group_ref (strs input)) \<and> str_of (snd kv) \<in> set vs"
      if "kv \<in> set input" for kv
    proof -
      from that have "(fst kv, str_of (snd kv)) \<in> set (strs input)" by (auto simp: strs_def)
      from group_ref_member[OF this] show ?thesis by auto
    qed
    from e m p distinct_keys_group_ref[of "strs input"]
    show "\<exists>kvs fs''. exhaust it fs' = Inr (kvs, fs'') \<and>
               mset (flatten kvs) = mset (strs input) \<and>
               distinct (map fst kvs) \<and>
               (\<forall>kv \<in> set input. \<exists>vs. (fst kv, vs) \<in> set kvs \<and> str_of (snd kv) \<in> set vs)"
      by blast
  }
  assume "(plain_config st \<or> tuned_config getsizeof st input) \<and>
          (\<exists>rid. resolve_request_id (request_id st) candidates fs = Some rid \<and> files fs rid = None)"
  then show "\<exists>it st' fs'. groupBy getsizeof candidates st input fs = Some (Inr (it, st', fs'))"
    using groupBy_succeeds[OF _ tok] by blast
qed

theorem emitted_pairs_witness:
  "(case groupBy example_getsizeof [''ws''] (GroupByStatement (Some 2) (Some 1) None None)
           example_input example_fs of
      Some (Inr (it, st', fs')) \<Rightarrow>
        spills st' = 5 \<and> num_merge_stages st' = 2 \<and>
        (case exhaust it fs' of
           Inl e \<Rightarrow> False
         | Inr (kvs, fs'') \<Rightarrow>
             kvs = [(0, [''1'', ''3'']), (1, [''0'', ''2'']), (5, [''7''])] \<and>
             mset (flatten kvs) = mset (strs example_input))
    | _ \<Rightarrow> False)"
proof -
  let ?G = "groupBy example_getsizeof [''ws''] (GroupByStatement (Some 2) (Some 1) None None)
              example_input example_fs"
  have "(case ?G of Some (Inr (it, st', fs')) \<Rightarrow> True | _ \<Rightarrow> False)" by code_simp
  then obtain it st' fs' where g: "?G = Some (Inr (it, st', fs'))"
    by (auto split: option.splits sum.splits)
  have "(case ?G of Some (Inr (it, st', fs')) \<Rightarrow> spills st' = 5 \<and> num_merge_stages st' = 2
         | _ \<Rightarrow> False)" by code_simp
  with g have s: "spills st' = 5 \<and> num_merge_stages st' = 2" by simp
  have "(case ?G of Some (Inr (it, st', fs')) \<Rightarrow>
           (case exhaust it fs' of Inl e \<Rightarrow> False
            | Inr (kvs, fs'') \<Rightarrow> kvs = [(0, [''1'', ''3'']), (1, [''0'', ''2'']), (5, [''7''])])
         | _ \<Rightarrow> False)" by code_simp
  with g have "(case exhaust it fs' of Inl e \<Rightarrow> False
            | Inr (kvs, fs'') \<Rightarrow> kvs = [(0, [''1'', ''3'']), (1, [''0'', ''2'']), (5, [''7''])])"
    by simp
  then obtain kvs fs'' where e: "exhaust it fs' = Inr (kvs, fs'')"
    and k: "kvs = [(0, [''1'', ''3'']), (1, [''0'', ''2'']), (5, [''7''])]"
    by (auto split: sum.splits)
  have a: "\<forall>kv \<in> set example_input. str_of (snd kv) \<noteq> [] \<and> (\<forall>c \<in> set (str_of (snd kv)). \<not> isspace c)"
    by code_simp
  from emitted_pairs[OF a, of example_getsizeof "[''ws'']" "GroupByStatement (Some 2) (Some 1) None None"
      example_fs] g e
  have "mset (flatten kvs) = mset (strs example_input)" by auto
  with g s e k show ?thesis by simp
qed

text \<open>
  The claim as stated fails for a value that is the empty string: on the spill path the
  values line of its key holds nothing to split, and the pair is lost.
\<close>

theorem emitted_pairs_counterexample:
  "(case groupBy example_getsizeof [''ws''] (GroupByStatement (Some 2) (Some 1) None None)
           [(1, PyStr []), (2, PyStr ''c'')] example_fs of
      Some (Inr (it, st', fs')) \<Rightarrow>
        (case exhaust it fs' of
           Inl e \<Rightarrow> False
         | Inr (kvs, fs'') \<Rightarrow> kvs = [(1, []), (2, [''c''])] \<and> flatten kvs = [(2, ''c'')])
    | _ \<Rightarrow> False) \<and>
   strs [(1, PyStr []), (2, PyStr ''c'')] = [(1, []), (2, ''c'')] \<and>
   mset [(2 :: int, ''c'')] \<noteq> mset [(1, []), (2, ''c'')]"
proof (intro conjI)
  show "(case groupBy example_getsizeof [''ws''] (GroupByStatement (Some 2) (Some 1) None None)
           [(1, PyStr []), (2, PyStr ''c'')] example_fs of
      Some (Inr (it, st', fs')) \<Rightarrow>
        (case exhaust it fs' of
           Inl e \<Rightarrow> False
         | Inr (kvs, fs'') \<Rightarrow> kvs = [(1, []), (2, [''c''])] \<and> flatten kvs = [(2, ''c'')])
    | _ \<Rightarrow> False)" by code_simp
  show "strs [(1, PyStr []), (2, PyStr ''c'')] = [(1, []), (2, ''c'')]" by (simp add: strs_def)
  show "mset [(2 :: int, ''c'')] \<noteq> mset [(1, []), (2, ''c'')]" by simp
qed

subsection \<open>C2: the order of what is emitted\<close>

subsubsection \<open>Runs with empty values\<close>

text \<open>
  A run whose values are free of whitespace but may be empty. The writer joins the values
  with spaces, so an empty value leaves nothing between two spaces, and \<^verbatim>\<open>split()\<close> reads
  the line back without it.
\<close>

definition ws_run :: "entry list \<Rightarrow> bool" where
  "ws_run r = (sorted_wrt (<) (map fst r) \<and> (\<forall>e \<in> set r. \<forall>v \<in> set (snd e). whitespace_free v))"

text \<open>What reading a run back gives: every entry without its empty values.\<close>

definition read_back :: "entry list \<Rightarrow> entry list" where
  "read_back r = map (\<lambda>e. (fst e, filter (\<lambda>v. v \<noteq> []) (snd e))) r"

lemma keys_read_back [simp]: "map fst (read_back r) = map fst r"
  by (simp add: read_back_def comp_def)

lemma read_back_Nil_iff [simp]: "read_back r = [] \<longleftrightarrow> r = []"
  by (simp add: read_back_def)

lemma read_back_Cons: "read_back (e # r) = (fst e, filter (\<lambda>v. v \<noteq> []) (snd e)) # read_back r"
  by (simp add: read_back_def)

lemma read_back_idem [simp]: "read_back (read_back r) = read_back r"
  by (simp add: read_back_def comp_def)

lemma hd_read_back: "r \<noteq> [] \<Longrightarrow> fst (hd (read_back r)) = fst (hd r)"
  by (cases r) (simp_all add: read_back_Cons)

lemma wf_run_read_back: "ws_run r \<Longrightarrow> wf_run (read_back r)"
proof -
  assume a: "ws_run r"
  then have "sorted_wrt (<) (map fst (read_back r))" by (simp add: ws_run_def)
  moreover have "\<forall>e \<in> set (read_back r). \<forall>v \<in> set (snd e). token v"
    using a by (auto simp: ws_run_def read_back_def token_def whitespace_free_def)
  ultimately show ?thesis by (simp add: wf_run_def)
qed

lemma ws_run_read_back: "ws_run r \<Longrightarrow> ws_run (read_back r)"
proof -
  assume a: "ws_run r"
  then have "sorted_wrt (<) (map fst (read_back r))" by (simp add: ws_run_def)
  moreover have "\<forall>e \<in> set (read_back r). \<forall>v \<in> set (snd e). whitespace_free v"
    using a by (auto simp: ws_run_def read_back_def)
  ultimately show ?thesis by (simp add: ws_run_def)
qed

lemma wf_run_ws_run: "wf_run r \<Longrightarrow> ws_run r"
  by (auto simp: wf_run_def ws_run_def token_def whitespace_free_def)

lemma ws_run_tl: "ws_run r \<Longrightarrow> ws_run (tl r)"
  by (cases r) (auto simp: ws_run_def)

lemma split_join_ws:
  "\<forall>v \<in> set vs. whitespace_free v \<Longrightarrow> split (join vs @ [newline]) = filter (\<lambda>v. v \<noteq> []) vs"
  unfolding split_def
proof (induction vs rule: join.induct)
  case 1 then show ?case by simp
next
  case (2 x)
  then have "split_from [] (x @ [newline]) = split_from ([] @ x) [newline]"
    by (intro split_from_word) (simp add: whitespace_free_def)
  then show ?case by simp
next
  case (3 x y ys)
  from 3 have "split_from [] (x @ space # join (y # ys) @ [newline]) =
               split_from ([] @ x) (space # join (y # ys) @ [newline])"
    by (intro split_from_word) (simp add: whitespace_free_def)
  with 3 show ?case by simp
qed

lemma join_no_newline_ws: "\<forall>v \<in> set vs. whitespace_free v \<Longrightarrow> newline \<notin> set (join vs)"
proof (induction vs rule: join.induct)
  case 1 then show ?case by simp
next
  case (2 x)
  then show ?case using isspace_newline by (auto simp: whitespace_free_def)
next
  case (3 x y ys)
  have "space \<noteq> newline" by (simp add: space_def newline_def)
  with 3 show ?case using isspace_newline by (auto simp: whitespace_free_def)
qed

lemma cr_not_in_join_ws: "\<forall>v \<in> set vs. whitespace_free v \<Longrightarrow> carriage_return \<notin> set (join vs)"
proof (induction vs rule: join.induct)
  case 1 then show ?case by simp
next
  case (2 x)
  then show ?case using isspace_cr by (auto simp: whitespace_free_def)
next
  case (3 x y ys)
  have "space \<noteq> carriage_return" by (simp add: space_def carriage_return_def)
  with 3 show ?case using isspace_cr by (auto simp: whitespace_free_def)
qed

lemma cr_not_in_ws_run: "ws_run r \<Longrightarrow> carriage_return \<notin> set (run_text r)"
proof -
  assume wf: "ws_run r"
  have nl: "newline \<noteq> carriage_return" by (simp add: newline_def carriage_return_def)
  have "carriage_return \<notin> set (entry_text e)" if "e \<in> set r" for e
    using that wf cr_not_in_str_int cr_not_in_join_ws[of "snd e"] nl
    by (auto simp: entry_text_def ws_run_def)
  then show ?thesis by (auto simp: run_text_def)
qed

lemma readline_pending_ws:
  "\<forall>v \<in> set vs. whitespace_free v \<Longrightarrow>
   readline (pending ((k, vs) # rest)) = Some (join vs @ [newline], run_text rest)"
  by (simp add: pending_def readline_line join_no_newline_ws)

lemma readline_key_line:
  "readline (run_text (e # rest)) = Some (str_int (fst e) @ [newline], pending (e # rest))"
  using readline_line[OF str_int_no_newline, of "fst e" "join (snd e) @ newline # run_text rest"]
  by (simp add: run_text_def entry_text_def pending_def)

subsubsection \<open>A heap over such runs reads like the heap over what is read back\<close>

definition same_item :: "heap_item \<Rightarrow> heap_item \<Rightarrow> bool" where
  "same_item x y = (\<exists>i r. ws_run r \<and> r \<noteq> [] \<and> x = item i r \<and> y = item i (read_back r))"

lemma same_item_less:
  "same_item x y \<Longrightarrow> same_item a b \<Longrightarrow> item_less x a = item_less y b"
  by (auto simp: same_item_def item_def hd_read_back)

lemma same_item_key: "same_item x y \<Longrightarrow> fst x = fst y"
  by (auto simp: same_item_def item_def hd_read_back)

lemma heappush_same:
  "list_all2 same_item h0 h \<Longrightarrow> same_item x y \<Longrightarrow> list_all2 same_item (heappush h0 x) (heappush h y)"
proof (induction h0 h rule: list_all2_induct)
  case Nil then show ?case by simp
next
  case (Cons a h0 b h)
  from same_item_less[OF Cons.prems Cons.hyps(1)] Cons show ?case by simp
qed

lemma foldl_heappush_same:
  "list_all2 same_item xs ys \<Longrightarrow> list_all2 same_item h0 h \<Longrightarrow>
   list_all2 same_item (foldl heappush h0 xs) (foldl heappush h ys)"
proof (induction xs ys arbitrary: h0 h rule: list_all2_induct)
  case Nil then show ?case by simp
next
  case (Cons x xs y ys)
  from Cons.IH[OF heappush_same[OF Cons.prems Cons.hyps(1)]] show ?case by simp
qed

lemma pop_values_same:
  "list_all2 same_item h0 h \<Longrightarrow>
   \<exists>h0' h' vs. pop_values k h0 acc = Inr (h0', vs) \<and> pop_values k h acc = Inr (h', vs) \<and>
      list_all2 same_item h0' h'"
proof (induction k h0 acc arbitrary: h rule: pop_values.induct)
  case (1 current_key values_list)
  then show ?case by simp
next
  case (2 current_key key index f heap values_list)
  from "2.prems" obtain y hs where h: "h = y # hs" and xy: "same_item (key, index, f) y"
    and rest: "list_all2 same_item heap hs" by (cases h) auto
  from xy obtain r where wr: "ws_run r" and ne: "r \<noteq> []"
    and x: "(key, index, f) = item index r" and y: "y = item index (read_back r)"
    by (auto simp: same_item_def item_def)
  from ne obtain e rs where r: "r = e # rs" by (cases r) auto
  obtain k0 vs where e: "e = (k0, vs)" by (cases e)
  from x r e have key: "key = k0" and f: "f = pending ((k0, vs) # rs)" by (simp_all add: item_def)
  from wr r e have wv: "\<forall>v \<in> set vs. whitespace_free v" and wrs: "ws_run rs"
    by (auto simp: ws_run_def)
  let ?vs' = "filter (\<lambda>v. v \<noteq> []) vs"
  from wv have wv': "\<forall>v \<in> set ?vs'. whitespace_free v" by simp
  have y': "y = (key, index, pending ((k0, ?vs') # read_back rs))"
    using y r e key by (simp add: item_def read_back_Cons)
  have rl: "readline f = Some (join vs @ [newline], run_text rs)"
    unfolding f by (rule readline_pending_ws[OF wv])
  have rl': "readline (pending ((k0, ?vs') # read_back rs)) =
             Some (join ?vs' @ [newline], run_text (read_back rs))"
    by (rule readline_pending_ws[OF wv'])
  have sp: "split (join vs @ [newline]) = ?vs'" by (rule split_join_ws[OF wv])
  have sp': "split (join ?vs' @ [newline]) = ?vs'"
    using split_join_ws[OF wv'] by simp
  show ?case
  proof (cases "key \<noteq> current_key")
    case True
    with "2.prems" h y' show ?thesis by simp
  next
    case False
    show ?thesis
    proof (cases rs)
      case Nil
      have n1: "readline (run_text rs) = None" using Nil by (simp add: readline_run_text_Nil)
      from "2.IH"(1)[OF False rl refl n1 rest]
      obtain h0' h' ws where
        a: "pop_values current_key heap (values_list @ split (join vs @ [newline])) = Inr (h0', ws)"
        and b: "pop_values current_key hs (values_list @ split (join vs @ [newline])) = Inr (h', ws)"
        and c: "list_all2 same_item h0' h'" by blast
      have "pop_values current_key ((key, index, f) # heap) values_list = Inr (h0', ws)"
        using False rl n1 a by simp
      moreover have "pop_values current_key h values_list = Inr (h', ws)"
        using False h y' rl' Nil b sp sp' by (simp add: readline_run_text_Nil read_back_def)
      ultimately show ?thesis using c by blast
    next
      case (Cons e2 rs2)
      have n1: "readline (run_text rs) = Some (str_int (fst e2) @ [newline], pending rs)"
        unfolding Cons by (rule readline_key_line)
      have n1': "readline (run_text (read_back rs)) =
                 Some (str_int (fst e2) @ [newline], pending (read_back rs))"
        unfolding Cons read_back_Cons using readline_key_line[of "(fst e2, filter (\<lambda>v. v \<noteq> []) (snd e2))" "read_back rs2"]
        by simp
      have io: "int_of_str (str_int (fst e2) @ [newline]) = Some (fst e2)" by (rule int_of_str_str_int)
      have si: "same_item (fst e2, index, pending rs) (fst e2, index, pending (read_back rs))"
        unfolding same_item_def
        using wrs Cons by (intro exI[of _ index] exI[of _ rs]) (simp add: item_def hd_read_back read_back_Cons)
      from "2.IH"(2)[OF False rl refl n1 refl io heappush_same[OF rest si]]
      obtain h0' h' ws where
        a: "pop_values current_key (heappush heap (fst e2, index, pending rs))
              (values_list @ split (join vs @ [newline])) = Inr (h0', ws)"
        and b: "pop_values current_key (heappush hs (fst e2, index, pending (read_back rs)))
              (values_list @ split (join vs @ [newline])) = Inr (h', ws)"
        and c: "list_all2 same_item h0' h'" by blast
      have "pop_values current_key ((key, index, f) # heap) values_list = Inr (h0', ws)"
        using False rl n1 io a by simp
      moreover have "pop_values current_key h values_list = Inr (h', ws)"
        using False h y' rl' n1' io b sp sp' by simp
      ultimately show ?thesis using c by blast
    qed
  qed
qed

lemma merge_next_same:
  assumes "list_all2 same_item h0 h" and "h0 \<noteq> []"
  shows "\<exists>e h0' h'. merge_next h0 = Inr (e, h0') \<and> merge_next h = Inr (e, h') \<and>
           list_all2 same_item h0' h'"
proof -
  from assms obtain x xs y ys where h0: "h0 = x # xs" and h: "h = y # ys" and xy: "same_item x y"
    by (cases h0; cases h) auto
  obtain k i f where x: "x = (k, i, f)" by (cases x)
  obtain k' i' f' where y: "y = (k', i', f')" by (cases y)
  from same_item_key[OF xy] x y have kk: "k' = k" by simp
  from pop_values_same[OF assms(1), of k "[]"]
  obtain h0' h' vs where "pop_values k h0 [] = Inr (h0', vs)" "pop_values k h [] = Inr (h', vs)"
    "list_all2 same_item h0' h'" by blast
  then show ?thesis unfolding h0 h x y kk by (simp add: merge_next_def)
qed

lemma iterate_merge_same:
  "list_all2 same_item h0 h \<Longrightarrow> iterate_merge h0 = iterate_merge h"
proof (induction "heap_size h0" arbitrary: h0 h rule: less_induct)
  case less
  show ?case
  proof (cases "h0 = []")
    case True
    with less.prems show ?thesis by simp
  next
    case False
    from merge_next_same[OF less.prems False]
    obtain e h0' h' where a: "merge_next h0 = Inr (e, h0')" and b: "merge_next h = Inr (e, h')"
      and c: "list_all2 same_item h0' h'" by blast
    from less.hyps[OF merge_next_size[OF a] c] have "iterate_merge h0' = iterate_merge h'" .
    with a b show ?thesis
      by (subst iterate_merge.simps, subst (2) iterate_merge.simps) simp
  qed
qed

lemma consume_merge_same:
  "list_all2 same_item h0 h \<Longrightarrow> consume_merge h0 = consume_merge h"
proof (induction "heap_size h0" arbitrary: h0 h rule: less_induct)
  case less
  show ?case
  proof (cases "h0 = []")
    case True
    with less.prems show ?thesis by simp
  next
    case False
    with less.prems have hne: "h \<noteq> []" by auto
    from merge_next_same[OF less.prems False]
    obtain e h0' h' where a: "merge_next h0 = Inr (e, h0')" and b: "merge_next h = Inr (e, h')"
      and c: "list_all2 same_item h0' h'" by blast
    from less.hyps[OF merge_next_size[OF a] c] have "consume_merge h0' = consume_merge h'" .
    with a b False hne show ?thesis
      by (subst consume_merge.simps, subst (2) consume_merge.simps) (simp add: hasNext_merge_def)
  qed
qed

lemma exhaust_same:
  "list_all2 same_item h0 h \<Longrightarrow>
   exhaust (FromDisk \<lparr>di_request_id = rid, di_merge_file_iterator = h0\<rparr>) fs =
   exhaust (FromDisk \<lparr>di_request_id = rid, di_merge_file_iterator = h\<rparr>) fs"
proof (induction "heap_size h0" arbitrary: h0 h fs rule: less_induct)
  case less
  show ?case
  proof (cases "h0 = []")
    case True
    with less.prems show ?thesis by simp
  next
    case False
    with less.prems have hne: "h \<noteq> []" by auto
    from merge_next_same[OF less.prems False]
    obtain e h0' h' where a: "merge_next h0 = Inr (e, h0')" and b: "merge_next h = Inr (e, h')"
      and c: "list_all2 same_item h0' h'" by blast
    from c have em: "h0' = [] \<longleftrightarrow> h' = []" by auto
    note IH = less.hyps[OF merge_next_size[OF a] c]
    show ?thesis
      using a b False hne em IH
      by (subst exhaust.simps, subst (2) exhaust.simps)
         (simp add: disk_hasNext_def hasNext_merge_def disk_next_def Let_def split: sum.splits)
  qed
qed

subsubsection \<open>The constructor over such runs\<close>

lemma push_first_keys_ws:
  "\<forall>r \<in> set Rs. r \<noteq> [] \<Longrightarrow>
   push_first_keys n (map run_text Rs) h0 =
     Inr (foldl heappush h0 (map (\<lambda>(i, r). item i r) (zip [n..<n + length Rs] Rs)))"
proof (induction Rs arbitrary: n h0)
  case Nil then show ?case by simp
next
  case (Cons r Rs)
  then obtain e rest where r: "r = e # rest" by (cases r) auto
  have up: "[n..<n + length (r # Rs)] = n # [Suc n..<Suc n + length Rs]"
    using upt_conv_Cons[of n "n + length (r # Rs)"] by simp
  have "push_first_keys n (map run_text (r # Rs)) h0 =
        push_first_keys (Suc n) (map run_text Rs) (heappush h0 (item n r))"
    using r by (simp add: readline_key_line int_of_str_str_int item_def)
  also have "\<dots> = Inr (foldl heappush (heappush h0 (item n r))
        (map (\<lambda>(i, r). item i r) (zip [Suc n..<Suc n + length Rs] Rs)))"
    using Cons.prems by (intro Cons.IH) auto
  finally show ?case unfolding up by simp
qed

lemma push_first_keys_started_ws:
  "push_first_keys n (map run_text Rs) h0 = Inr h \<Longrightarrow> \<forall>r \<in> set Rs. r \<noteq> []"
proof (induction Rs arbitrary: n h0)
  case Nil then show ?case by simp
next
  case (Cons r Rs)
  show ?case
  proof (cases r)
    case Nil
    with Cons.prems show ?thesis by (simp add: readline_run_text_Nil)
  next
    case (Cons e rest)
    from Cons.prems have "push_first_keys (Suc n) (map run_text Rs) (heappush h0 (fst e, n, pending r)) = Inr h"
      using Cons by (simp add: readline_key_line int_of_str_str_int)
    with Cons.IH[of "Suc n"] have "\<forall>r \<in> set Rs. r \<noteq> []" by simp
    with Cons show ?thesis by simp
  qed
qed

lemma open_all_ws:
  "list_all2 (\<lambda>p r. files fs p = Some (run_text r) \<and> ws_run r) ps Rs \<Longrightarrow>
   open_all fs ps = Inr (map run_text Rs)"
proof (induction ps Rs rule: list_all2_induct)
  case Nil then show ?case by simp
next
  case (Cons p ps r Rs)
  then show ?case
    by (simp add: open_read_def universal_newlines_id cr_not_in_ws_run)
qed

lemma items_same:
  assumes "\<forall>r \<in> set Rs. r \<noteq> [] \<and> ws_run r"
  shows "list_all2 same_item (map (\<lambda>(i, r). item i r) (zip [n..<n + length Rs] Rs))
           (map (\<lambda>(i, r). item i r) (zip [n..<n + length Rs] (map read_back Rs)))"
  unfolding list_all2_conv_all_nth
proof (intro conjI allI impI)
  show "length (map (\<lambda>(i, r). item i r) (zip [n..<n + length Rs] Rs)) =
        length (map (\<lambda>(i, r). item i r) (zip [n..<n + length Rs] (map read_back Rs)))" by simp
  fix j assume "j < length (map (\<lambda>(i, r). item i r) (zip [n..<n + length Rs] Rs))"
  then have j: "j < length Rs" by simp
  with assms have "Rs ! j \<noteq> []" "ws_run (Rs ! j)" by simp_all
  then show "same_item (map (\<lambda>(i, r). item i r) (zip [n..<n + length Rs] Rs) ! j)
          (map (\<lambda>(i, r). item i r) (zip [n..<n + length Rs] (map read_back Rs)) ! j)"
    using j unfolding same_item_def by (intro exI[of _ "n + j"] exI[of _ "Rs ! j"]) simp
qed

text \<open>
  The iterator over files that hold such runs: the constructor returns exactly when no run
  is empty, and the iterator yields the merge of what is read back of the runs.
\<close>

lemma MergeFileIterator_ws:
  assumes la: "list_all2 (\<lambda>p r. files fs p = Some (run_text r) \<and> ws_run r) ps Rs"
  shows "MergeFileIterator fs ps = Inr h \<Longrightarrow> \<forall>r \<in> set Rs. r \<noteq> []"
    and "\<forall>r \<in> set Rs. r \<noteq> [] \<Longrightarrow>
         \<exists>h h'. MergeFileIterator fs ps = Inr h \<and> list_all2 same_item h h' \<and>
                heap_inv h' (map read_back Rs)"
proof -
  note oa = open_all_ws[OF la]
  show "MergeFileIterator fs ps = Inr h \<Longrightarrow> \<forall>r \<in> set Rs. r \<noteq> []"
    using oa push_first_keys_started_ws[of 0 Rs "[]" h] by (simp add: MergeFileIterator_def)
  assume ne: "\<forall>r \<in> set Rs. r \<noteq> []"
  have wf: "\<forall>r \<in> set Rs. r \<noteq> [] \<and> ws_run r"
    using la ne by (auto simp: list_all2_conv_all_nth in_set_conv_nth)
  let ?h = "foldl heappush [] (map (\<lambda>(i, r). item i r) (zip [0..<length Rs] Rs))"
  let ?h' = "foldl heappush [] (map (\<lambda>(i, r). item i r) (zip [0..<length Rs] (map read_back Rs)))"
  have m: "MergeFileIterator fs ps = Inr ?h"
    using oa push_first_keys_ws[OF ne, of 0 "[]"] by (simp add: MergeFileIterator_def)
  have s: "list_all2 same_item ?h ?h'"
    using foldl_heappush_same[OF items_same[OF wf, of 0], of "[]" "[]"] by simp
  have "\<forall>r \<in> set (map read_back Rs). r \<noteq> [] \<and> wf_run r"
    using wf by (auto simp: wf_run_read_back)
  from initial_heap_inv[OF this] have "heap_inv ?h' (map read_back Rs)" by simp
  with m s show "\<exists>h h'. MergeFileIterator fs ps = Inr h \<and> list_all2 same_item h h' \<and>
                heap_inv h' (map read_back Rs)" by blast
qed

lemma merge_ws:
  assumes la: "list_all2 (\<lambda>p r. files fs p = Some (run_text r) \<and> ws_run r) ps Rs"
    and h: "MergeFileIterator fs ps = Inr h"
  shows "iterate_merge h = (merge_spec (map read_back Rs), None)"
    and "consume_merge h = Inr (merge_spec (map read_back Rs))"
    and "rid \<in> dirs fs2 \<Longrightarrow>
         exhaust (FromDisk \<lparr>di_request_id = rid, di_merge_file_iterator = h\<rparr>) fs2 =
           Inr (merge_spec (map read_back Rs), if h = [] then fs2 else without_tree rid fs2)"
proof -
  from MergeFileIterator_ws(1)[OF la h] have ne: "\<forall>r \<in> set Rs. r \<noteq> []" .
  from MergeFileIterator_ws(2)[OF la ne] h obtain h' where
    s: "list_all2 same_item h h'" and inv: "heap_inv h' (map read_back Rs)" by auto
  from s have em: "h = [] \<longleftrightarrow> h' = []" by auto
  show "iterate_merge h = (merge_spec (map read_back Rs), None)"
    using iterate_merge_same[OF s] merge_correct[OF inv] by simp
  show "consume_merge h = Inr (merge_spec (map read_back Rs))"
    using consume_merge_same[OF s] merge_correct[OF inv] by simp
  assume "rid \<in> dirs fs2"
  from exhaust_disk[OF inv this] exhaust_same[OF s, of rid fs2] em
  show "exhaust (FromDisk \<lparr>di_request_id = rid, di_merge_file_iterator = h\<rparr>) fs2 =
           Inr (merge_spec (map read_back Rs), if h = [] then fs2 else without_tree rid fs2)"
    by simp
qed

subsubsection \<open>The merge passes over runs with empty values\<close>

definition ws_pairs :: "(int \<times> string) list \<Rightarrow> bool" where
  "ws_pairs ps = (\<forall>p \<in> set ps. whitespace_free (snd p))"

text \<open>
  The dump file of index \<open>i\<close> reads as the grouping of the chunk \<open>c\<close> without its empty
  values.
\<close>

definition disk_reads :: "gbs \<Rightarrow> fsys \<Rightarrow> nat \<Rightarrow> (int \<times> string) list \<Rightarrow> bool" where
  "disk_reads st fs i c = (\<exists>r. files fs (get_dump_filename st i) = Some (run_text r) \<and> ws_run r \<and>
     read_back r = read_back (group_ref c))"

definition reads_on_disk :: "gbs \<Rightarrow> fsys \<Rightarrow> (int \<times> string) list list \<Rightarrow> bool" where
  "reads_on_disk st fs cs = (num_files st = length cs \<and> (\<forall>i < length cs. disk_reads st fs i (cs ! i)))"

lemma ws_run_group_ref: "ws_pairs ps \<Longrightarrow> ws_run (group_ref ps)"
  unfolding ws_run_def
proof (intro conjI ballI)
  show "sorted_wrt (<) (map fst (group_ref ps))" by (rule sorted_group_ref)
next
  fix e v assume a: "ws_pairs ps" and e: "e \<in> set (group_ref ps)" and v: "v \<in> set (snd e)"
  from e v obtain k where "v \<in> set (values_for k ps)" by (auto simp: group_ref_def)
  with a show "whitespace_free v" by (auto simp: values_for_def ws_pairs_def)
qed

lemma ws_pairs_concat: "\<forall>c \<in> set cs. ws_pairs c \<Longrightarrow> ws_pairs (concat cs)"
  by (auto simp: ws_pairs_def)

lemma ws_pairs_chunks: "ws_pairs (concat cs) \<Longrightarrow> \<forall>c \<in> set cs. ws_pairs c"
  by (auto simp: ws_pairs_def)

lemma disk_run_reads: "ws_pairs c \<Longrightarrow> disk_run st fs i c \<Longrightarrow> disk_reads st fs i c"
  unfolding disk_reads_def disk_run_def
  by (intro exI[of _ "group_ref c"]) (simp add: ws_run_group_ref)

lemma map_of_read_back:
  "map_of (read_back r) k = map_option (filter (\<lambda>v. v \<noteq> [])) (map_of r k)"
  by (induction r) (auto simp: read_back_def)

lemma vals_in_read_back: "vals_in k (read_back r) = filter (\<lambda>v. v \<noteq> []) (vals_in k r)"
  by (simp add: vals_in_def map_of_read_back split: option.splits)

lemma set_keys_read_back: "fst ` set (read_back r) = fst ` set r"
  using keys_read_back[of r] by (metis list.set_map)

lemma merge_spec_read_back: "merge_spec (map read_back Rs) = read_back (merge_spec Rs)"
proof -
  have k: "(\<Union>r \<in> set (map read_back Rs). fst ` set r) = (\<Union>r \<in> set Rs. fst ` set r)"
    by (simp add: set_keys_read_back)
  have v: "concat (map (vals_in k) (map read_back Rs)) = filter (\<lambda>v. v \<noteq> []) (concat (map (vals_in k) Rs))"
    for k by (induction Rs) (simp_all add: vals_in_read_back)
  show ?thesis unfolding merge_spec_def k v by (simp add: read_back_def comp_def)
qed

lemma merge_spec_reads:
  assumes "\<forall>i \<in> set ids. read_back (R i) = read_back (group_ref (cs ! i))"
  shows "merge_spec (map read_back (map R ids)) = read_back (group_ref (concat (map ((!) cs) ids)))"
proof -
  have "map read_back (map R ids) = map read_back (map group_ref (map ((!) cs) ids))"
    using assms by simp
  then show ?thesis
    by (simp only: merge_spec_read_back merge_spec_group_ref)
qed

lemma merge_to_file_ws:
  assumes "list_all2 (\<lambda>p r. files fs p = Some (run_text r) \<and> ws_run r) ps Rs"
    and "merge_to_file ps mf fs = Inr fs'"
  shows "fs' = write_key_values_to_file (merge_spec (map read_back Rs)) mf fs"
proof -
  from assms(2) obtain h where h: "MergeFileIterator fs ps = Inr h"
    by (auto simp: merge_to_file_def split: sum.splits)
  from merge_ws(1)[OF assms(1) h] h assms(2) show ?thesis
    by (simp add: merge_to_file_def)
qed

lemma merge_group_reads:
  assumes ws: "\<forall>c \<in> set cs. ws_pairs c"
    and n: "num_files st = length cs"
    and a: "a < length cs"
    and src: "\<forall>i \<in> set (group_ids st a). disk_reads st fs i (cs ! i)"
    and mg: "merge_group st a j fs = Inr fs'"
  shows "disk_reads st fs' j (concat (map ((!) cs) (group_ids st a))) \<and>
         (\<forall>i. i \<noteq> j \<longrightarrow> i \<notin> set (group_ids st a) \<longrightarrow>
              files fs' (get_dump_filename st i) = files fs (get_dump_filename st i)) \<and>
         dirs fs' = dirs fs"
proof -
  let ?ids = "group_ids st a"
  let ?ps = "map (get_dump_filename st) ?ids"
  let ?mf = "get_merge_filename st"
  let ?dj = "get_dump_filename st j"
  let ?C = "concat (map ((!) cs) ?ids)"
  have ids_lt: "\<forall>i \<in> set ?ids. i < length cs" using n by (auto simp: group_ids_def)
  from src have "\<forall>i \<in> set ?ids. \<exists>r. files fs (get_dump_filename st i) = Some (run_text r) \<and> ws_run r \<and>
     read_back r = read_back (group_ref (cs ! i))" by (simp add: disk_reads_def)
  from bchoice[OF this] obtain R where
    R: "\<forall>i \<in> set ?ids. files fs (get_dump_filename st i) = Some (run_text (R i)) \<and> ws_run (R i) \<and>
          read_back (R i) = read_back (group_ref (cs ! i))" by blast
  let ?Rs = "map R ?ids"
  have la: "list_all2 (\<lambda>p r. files fs p = Some (run_text r) \<and> ws_run r) ?ps ?Rs"
    unfolding list_all2_conv_all_nth
  proof (intro conjI allI impI)
    show "length ?ps = length ?Rs" by simp
  next
    fix k assume "k < length ?ps"
    then have k: "k < length ?ids" by simp
    then have in_ids: "?ids ! k \<in> set ?ids" by simp
    with R have r: "files fs (get_dump_filename st (?ids ! k)) = Some (run_text (R (?ids ! k)))"
      "ws_run (R (?ids ! k))" by blast+
    from r(1) show "files fs (?ps ! k) = Some (run_text (?Rs ! k))" using k by simp
    from r(2) show "ws_run (?Rs ! k)" using k by simp
  qed
  have spec: "merge_spec (map read_back ?Rs) = read_back (group_ref ?C)"
    by (rule merge_spec_reads) (use R in blast)
  have wsC: "ws_pairs ?C"
  proof (rule ws_pairs_concat, rule ballI)
    fix c assume "c \<in> set (map ((!) cs) ?ids)"
    then obtain i where "i \<in> set ?ids" "c = cs ! i" by auto
    with ids_lt have "c \<in> set cs" by simp
    with ws show "ws_pairs c" by simp
  qed
  have dist: "distinct ?ps" by (simp add: distinct_map inj_on_def group_ids_def)
  show ?thesis
  proof (cases "length ?ids = 1")
    case True
    then obtain i0 where i0: "?ids = [i0]" by (cases ?ids) auto
    with mg True have mv: "move (get_dump_filename st i0) ?dj fs = Inr fs'"
      by (auto simp: merge_group_def Let_def split: sum.splits)
    from src i0 have "disk_reads st fs i0 (cs ! i0)" by simp
    with mv show ?thesis using i0 True
      by (auto simp: move_def disk_reads_def split: option.splits)
  next
    case False
    with mg obtain fs1 fs2 where m1: "merge_to_file ?ps ?mf fs = Inr fs1"
      and r2: "remove_all ?ps fs1 = Inr fs2" and m3: "move ?mf ?dj fs2 = Inr fs'"
      by (auto simp: merge_group_def Let_def split: sum.splits)
    from merge_to_file_ws[OF la m1]
    have fs1: "fs1 = write_key_values_to_file (read_back (group_ref ?C)) ?mf fs"
      by (simp only: spec)
    have ex1: "\<forall>p \<in> set ?ps. files fs1 p \<noteq> None"
      using R by (auto simp: fs1 write_key_values_to_file_def)
    from remove_all_existing[OF dist ex1] r2
    have fs2: "fs2 = fs1\<lparr>files := (\<lambda>p. if p \<in> set ?ps then None else files fs1 p)\<rparr>" by simp
    have mfin: "?mf \<notin> set ?ps" by auto
    have "files fs2 ?mf = Some (run_text (read_back (group_ref ?C)))"
      using mfin by (simp add: fs2 fs1 write_key_values_to_file_def)
    with m3 have fs': "fs' = fs2\<lparr>files := ((files fs2)(?mf := None))(?dj \<mapsto> run_text (read_back (group_ref ?C)))\<rparr>"
      by (simp add: move_def)
    have "disk_reads st fs' j ?C"
      unfolding disk_reads_def
      by (intro exI[of _ "read_back (group_ref ?C)"])
         (simp add: fs' ws_run_read_back[OF ws_run_group_ref[OF wsC]])
    moreover have "\<forall>i. i \<noteq> j \<longrightarrow> i \<notin> set ?ids \<longrightarrow>
                files fs' (get_dump_filename st i) = files fs (get_dump_filename st i)"
      by (auto simp: fs' fs2 fs1 write_key_values_to_file_def)
    moreover have "dirs fs' = dirs fs" by (simp add: fs' fs2 fs1 write_key_values_to_file_def)
    ultimately show ?thesis by blast
  qed
qed

lemma merge_pass_step_reads:
  assumes ws: "\<forall>c \<in> set cs. ws_pairs c"
    and n: "num_files st = length cs"
    and m: "1 \<le> max_num_files st"
    and jG: "j < (length cs + nat (max_num_files st) - 1) div nat (max_num_files st)"
    and dn: "\<forall>i < j. disk_reads st fs i (group_chunk st cs i)"
    and td: "\<forall>i. j * nat (max_num_files st) \<le> i \<and> i < length cs \<longrightarrow> disk_reads st fs i (cs ! i)"
    and mg: "merge_group st (j * nat (max_num_files st)) j fs = Inr fs1"
  shows "(\<forall>i < Suc j. disk_reads st fs1 i (group_chunk st cs i)) \<and>
         (\<forall>i. Suc j * nat (max_num_files st) \<le> i \<and> i < length cs \<longrightarrow> disk_reads st fs1 i (cs ! i)) \<and>
         dirs fs1 = dirs fs"
proof -
  define m where "m = nat (max_num_files st)"
  have m1: "1 \<le> m" using m by (simp add: m_def)
  let ?a = "j * m"
  have a: "j * nat (max_num_files st) < length cs"
    using ceil_div_index[OF m1, of j "length cs"] jG by (simp add: m_def)
  have ids: "group_ids st (j * nat (max_num_files st)) =
           [j * nat (max_num_files st)..<min (length cs) (j * nat (max_num_files st) + nat (max_num_files st))]"
    by (simp add: group_ids_def n)
  have src: "\<forall>i \<in> set (group_ids st (j * nat (max_num_files st))). disk_reads st fs i (cs ! i)"
    using td by (simp add: ids)
  from merge_group_reads[OF ws n a src mg]
  have r: "disk_reads st fs1 j (group_chunk st cs j)"
    and same: "\<forall>i. i \<noteq> j \<longrightarrow> i \<notin> set (group_ids st ?a) \<longrightarrow>
            files fs1 (get_dump_filename st i) = files fs (get_dump_filename st i)"
    and d: "dirs fs1 = dirs fs"
    by (simp_all add: group_chunk_def m_def)
  have ids': "group_ids st ?a = [?a..<min (length cs) (?a + m)]" using ids by (simp add: m_def)
  have jle: "j \<le> ?a" using m1 by simp
  have "disk_reads st fs1 i (group_chunk st cs i)" if "i < Suc j" for i
  proof (cases "i = j")
    case True with r show ?thesis by simp
  next
    case False
    with that have ij: "i < j" by simp
    with jle have "i < ?a" by linarith
    then have "i \<notin> set (group_ids st ?a)" by (simp add: ids')
    with same False have "files fs1 (get_dump_filename st i) = files fs (get_dump_filename st i)" by simp
    with dn ij show ?thesis by (simp add: disk_reads_def)
  qed
  moreover have "disk_reads st fs1 i (cs ! i)" if "Suc j * m \<le> i \<and> i < length cs" for i
  proof -
    from that have am: "?a + m \<le> i" by simp
    then have notin: "i \<notin> set (group_ids st ?a)" by (simp add: ids')
    have "j < i" using am jle m1 by linarith
    with same notin have "files fs1 (get_dump_filename st i) = files fs (get_dump_filename st i)" by simp
    moreover have "disk_reads st fs i (cs ! i)" using td that by (simp add: m_def)
    ultimately show ?thesis by (simp add: disk_reads_def)
  qed
  ultimately show ?thesis using d by (simp add: m_def)
qed

lemma merge_pass_reads:
  assumes ws: "\<forall>c \<in> set cs. ws_pairs c"
    and n: "num_files st = length cs"
    and m: "1 \<le> max_num_files st"
    and G: "G = (length cs + nat (max_num_files st) - 1) div nat (max_num_files st)"
  shows "j \<le> G \<Longrightarrow> \<forall>i < j. disk_reads st fs i (group_chunk st cs i) \<Longrightarrow>
         \<forall>i. j * nat (max_num_files st) \<le> i \<and> i < length cs \<longrightarrow> disk_reads st fs i (cs ! i) \<Longrightarrow>
         merge_pass st (map (\<lambda>j. j * nat (max_num_files st)) [j..<G]) j fs = Inr (cur, fs') \<Longrightarrow>
           cur = G \<and> (\<forall>i < G. disk_reads st fs' i (group_chunk st cs i)) \<and> dirs fs' = dirs fs"
proof (induction "G - j" arbitrary: j fs)
  case 0
  then show ?case by simp
next
  case (Suc k)
  from Suc.hyps(2) have jG: "j < G" by simp
  then have up: "[j..<G] = j # [Suc j..<G]" by (simp add: upt_conv_Cons)
  from Suc.prems(4) obtain fs1 where mg: "merge_group st (j * nat (max_num_files st)) j fs = Inr fs1"
    and rest: "merge_pass st (map (\<lambda>j. j * nat (max_num_files st)) [Suc j..<G]) (Suc j) fs1 = Inr (cur, fs')"
    unfolding up by (auto split: sum.splits)
  from merge_pass_step_reads[OF ws n m jG[unfolded G] Suc.prems(2) Suc.prems(3) mg]
  have dn': "\<forall>i < Suc j. disk_reads st fs1 i (group_chunk st cs i)"
    and td': "\<forall>i. Suc j * nat (max_num_files st) \<le> i \<and> i < length cs \<longrightarrow> disk_reads st fs1 i (cs ! i)"
    and d: "dirs fs1 = dirs fs" by auto
  have k: "k = G - Suc j" using Suc.hyps(2) by simp
  have "Suc j \<le> G" using jG by simp
  from Suc.hyps(1)[OF k this dn' td' rest] d show ?case by simp
qed

lemma ws_pairs_regroup:
  assumes "num_files st = length cs" "\<forall>c \<in> set cs. ws_pairs c"
  shows "\<forall>c \<in> set (regroup st cs). ws_pairs c"
proof
  fix c assume "c \<in> set (regroup st cs)"
  then obtain j where "c = group_chunk st cs j" by (auto simp: regroup_def)
  then have "set c \<subseteq> \<Union> (set ` set cs)"
    unfolding group_chunk_segment[OF assms(1)] by (auto dest: in_set_takeD in_set_dropD)
  with assms(2) show "ws_pairs c" by (auto simp: ws_pairs_def)
qed

lemma merge_dump_files_reads:
  "reads_on_disk st fs cs \<Longrightarrow> \<forall>c \<in> set cs. ws_pairs c \<Longrightarrow> merge_dump_files st fs = Inr (st', fs') \<Longrightarrow>
   \<exists>cs'. reads_on_disk st' fs' cs' \<and> (\<forall>c \<in> set cs'. ws_pairs c) \<and> concat cs' = concat cs \<and>
         dirs fs' = dirs fs"
proof (induction st fs arbitrary: cs rule: merge_dump_files.induct)
  case (1 st fs)
  show ?case
  proof (cases "int (num_files st) > max_num_files st")
    case False
    with "1.prems"(3) have "st' = st" "fs' = fs" by (simp_all add: merge_dump_files.simps)
    with False "1.prems" show ?thesis by (intro exI[of _ cs]) simp
  next
    case True
    with "1.prems"(3) have m2: "\<not> max_num_files st < 2"
      by (auto simp: merge_dump_files.simps[of st fs] split: option.splits sum.splits)
    then have m1: "1 \<le> max_num_files st" by simp
    from "1.prems"(1) have n: "num_files st = length cs"
      and runs: "\<forall>i < length cs. disk_reads st fs i (cs ! i)" by (auto simp: reads_on_disk_def)
    let ?m = "nat (max_num_files st)"
    let ?G = "(length cs + ?m - 1) div ?m"
    have rs: "range_step (num_files st) ?m = map (\<lambda>j. j * ?m) [0..<?G]"
      by (simp add: range_step_def n)
    from "1.prems"(3) True m2 obtain cur fs1 where
      mp: "merge_pass st (map (\<lambda>j. j * ?m) [0..<?G]) 0 fs = Inr (cur, fs1)"
      and rec: "merge_dump_files (st\<lparr>num_files := cur, num_merge_stages := num_merge_stages st + 1\<rparr>) fs1 = Inr (st', fs')"
      by (auto simp: merge_dump_files.simps[of st fs] rs split: sum.splits)
    let ?st1 = "st\<lparr>num_files := cur, num_merge_stages := num_merge_stages st + 1\<rparr>"
    from merge_pass_reads[OF "1.prems"(2) n m1 refl, of 0 fs cur fs1] runs mp
    have cur: "cur = ?G" and out: "\<forall>i < ?G. disk_reads st fs1 i (group_chunk st cs i)"
      and d: "dirs fs1 = dirs fs" by auto
    have rod: "reads_on_disk ?st1 fs1 (regroup st cs)"
      using out cur by (simp add: reads_on_disk_def length_regroup disk_reads_def regroup_def)
    have tk: "\<forall>c \<in> set (regroup st cs). ws_pairs c" by (rule ws_pairs_regroup[OF n "1.prems"(2)])
    from "1.IH"[OF True m2 mp[folded rs] refl rod tk rec]
    obtain cs' where cs': "reads_on_disk st' fs' cs'" "\<forall>c \<in> set cs'. ws_pairs c"
      "concat cs' = concat (regroup st cs)" "dirs fs' = dirs fs1"
      by blast
    with d concat_regroup[OF n m1] show ?thesis
      by (intro exI[of _ cs']) simp
  qed
qed

subsubsection \<open>groupBy over values that may be empty\<close>

lemma groupBy_in_reads:
  assumes g: "groupBy_in getsizeof rid st0 input fs0 = Inr (it, st', fs')"
    and n0: "num_files st0 = 0"
    and ws: "ws_pairs (strs input)"
  shows "\<exists>fs''. exhaust it fs' =
           Inr (case it of FromMemory m \<Rightarrow> group_ref (strs input)
                | FromDisk d \<Rightarrow> read_back (group_ref (strs input)), fs'')"
proof -
  let ?st = "st0\<lparr>request_id := Some rid\<rparr>"
  from g obtain fs1 result st2 fs2 where mk: "mkdir rid fs0 = Inr fs1"
    and ch: "chunk_input_into_dump_files getsizeof input ?st fs1 = Inr (result, st2, fs2)"
    by (auto simp: groupBy_in_def Let_def split: sum.splits)
  from mk have d1: "rid \<in> dirs fs1" by (auto simp: mkdir_def split: if_splits)
  have n0': "num_files ?st = 0" using n0 by simp
  note cr = chunk_input_result[OF n0' _ ch, of False]
  show ?thesis
  proof (cases result)
    case (Some h)
    with g mk ch have it: "it = FromMemory (KeyListIteratorFromMemory h)"
      by (auto simp: groupBy_in_def Let_def split: sum.splits)
    from cr Some have "holds h (strs input)" by simp
    then show ?thesis unfolding it by (simp add: exhaust_memory sorted_items_holds)
  next
    case None
    with g mk ch obtain st3 d where mg: "merge_dump_files st2 fs2 = Inr (st3, fs')"
      and kd: "KeyListIteratorFromDisk rid (map (get_dump_filename st3) [0..<num_files st3]) fs' = Inr d"
      and it: "it = FromDisk d"
      by (auto simp: groupBy_in_def Let_def split: sum.splits)
    from cr None obtain cs where c: "runs_on_disk st2 fs2 cs" "concat cs = strs input"
      "dirs fs2 = dirs fs1" by auto
    have tk: "\<forall>c \<in> set cs. ws_pairs c" using ws c(2) ws_pairs_chunks by metis
    have rd: "reads_on_disk st2 fs2 cs"
      using c(1) tk by (auto simp: runs_on_disk_def reads_on_disk_def intro: disk_run_reads)
    from merge_dump_files_reads[OF rd tk mg]
    obtain cs' where c': "reads_on_disk st3 fs' cs'" "\<forall>c \<in> set cs'. ws_pairs c" "concat cs' = concat cs"
      "dirs fs' = dirs fs2" by blast
    from kd obtain h where h: "MergeFileIterator fs' (map (get_dump_filename st3) [0..<num_files st3]) = Inr h"
      and d: "d = \<lparr>di_request_id = rid, di_merge_file_iterator = h\<rparr>"
      by (auto simp: KeyListIteratorFromDisk_def split: sum.splits)
    from c'(1) have n: "num_files st3 = length cs'"
      and "\<forall>i \<in> set [0..<length cs']. \<exists>r. files fs' (get_dump_filename st3 i) = Some (run_text r) \<and>
             ws_run r \<and> read_back r = read_back (group_ref (cs' ! i))"
      by (auto simp: reads_on_disk_def disk_reads_def)
    from bchoice[OF this(2)] obtain R where
      R: "\<forall>i \<in> set [0..<length cs']. files fs' (get_dump_filename st3 i) = Some (run_text (R i)) \<and>
             ws_run (R i) \<and> read_back (R i) = read_back (group_ref (cs' ! i))" by blast
    let ?ids = "[0..<length cs']"
    have la: "list_all2 (\<lambda>p r. files fs' p = Some (run_text r) \<and> ws_run r)
                (map (get_dump_filename st3) [0..<num_files st3]) (map R ?ids)"
      unfolding list_all2_conv_all_nth using R n by simp
    have "map ((!) cs') ?ids = cs'" by (rule map_nth)
    then have sp: "merge_spec (map read_back (map R ?ids)) = read_back (group_ref (concat cs'))"
      using merge_spec_reads[of ?ids R cs'] R by simp
    have "rid \<in> dirs fs'" using d1 c(3) c'(4) by simp
    from merge_ws(3)[OF la h this, unfolded sp] show ?thesis
      unfolding it d by (simp add: c'(3) c(2))
  qed
qed

lemma groupBy_reads:
  assumes g: "groupBy getsizeof candidates st input fs = Some (Inr (it, st', fs'))"
    and ws: "ws_pairs (strs input)"
  shows "\<exists>fs''. exhaust it fs' =
           Inr (case it of FromMemory m \<Rightarrow> group_ref (strs input)
                | FromDisk d \<Rightarrow> read_back (group_ref (strs input)), fs'')"
proof (cases "input = []")
  case True
  with g have "it = FromMemory (KeyListIteratorFromMemory [])" by (simp add: groupBy_def Let_def)
  with True show ?thesis by (simp add: exhaust_memory sorted_items_def strs_def group_ref_def)
next
  case False
  let ?st0 = "st\<lparr>num_files := 0, total_num_entries := 0, spills := 0, num_merge_stages := 0\<rparr>"
  from g False obtain rid where "groupBy_in getsizeof rid ?st0 input fs = Inr (it, st', fs')"
    by (auto simp: groupBy_def Let_def split: option.splits)
  from groupBy_in_reads[OF this _ ws] show ?thesis by simp
qed

subsubsection \<open>The order of the keys and of the values\<close>

lemma read_back_group_ref_values:
  "e \<in> set (read_back (group_ref ps)) \<Longrightarrow>
   snd e = filter (\<lambda>v. v \<noteq> []) (map snd (filter (\<lambda>p. fst p = fst e) ps))"
  by (auto simp: read_back_def group_ref_def values_for_def)

lemma group_ref_values: "e \<in> set (group_ref ps) \<Longrightarrow> snd e = map snd (filter (\<lambda>p. fst p = fst e) ps)"
  by (auto simp: group_ref_def values_for_def)

text \<open>An input with empty values, for three spills and one merge pass.\<close>

definition gappy_input :: "(int \<times> pyval) list" where
  "gappy_input = [(1, PyStr ''x''), (3, PyStr ''b''), (1, PyStr []), (2, PyStr []),
                  (0, PyStr ''z''), (3, PyStr ''a''), (1, PyStr ''y'')]"


text \<open>
  Claim C2. For every finite input stream whose values render as strings free of
  whitespace: whenever \<^verbatim>\<open>groupBy\<close> returns an iterator, over memory or over the disk, the
  caller's loop over it runs to the end, the keys it emits are the keys of the input in
  strictly ascending order, and the group of a key holds the values that the input has for
  this key, in the order of the input: all of them from memory, and from the disk those
  that are not the empty string, which the run format does not hold. On the disk,
  \<^verbatim>\<open>MergeFileIterator\<close> over files that hold non-empty runs with ascending keys emits every
  key once, in ascending order, with the values of the files that have this key
  concatenated in the order of the file list.
\<close>

theorem emitted_order:
  assumes "\<forall>kv \<in> set input. \<forall>c \<in> set (str_of (snd kv)). \<not> isspace c"
  shows "(\<forall>it st' fs'. groupBy getsizeof candidates st input fs = Some (Inr (it, st', fs')) \<longrightarrow>
            (\<exists>kvs fs''. exhaust it fs' = Inr (kvs, fs'') \<and>
               sorted_wrt (<) (map fst kvs) \<and>
               set (map fst kvs) = fst ` set input \<and>
               (\<forall>e \<in> set kvs. snd e =
                  (case it of
                     FromMemory m \<Rightarrow> map snd (filter (\<lambda>p. fst p = fst e) (strs input))
                   | FromDisk d \<Rightarrow>
                       filter (\<lambda>v. v \<noteq> []) (map snd (filter (\<lambda>p. fst p = fst e) (strs input))))))) \<and>
         (\<forall>fs0 ps Rs. list_all2 (\<lambda>p r. files fs0 p = Some (run_text r) \<and> ws_run r) ps Rs \<and>
            (\<forall>r \<in> set Rs. r \<noteq> []) \<longrightarrow>
            (\<exists>h. MergeFileIterator fs0 ps = Inr h \<and>
               consume_merge h =
                 Inr (map (\<lambda>k. (k, concat (map (\<lambda>r. filter (\<lambda>v. v \<noteq> []) (vals_in k r)) Rs)))
                        (sorted_list_of_set (\<Union>r \<in> set Rs. fst ` set r)))))"
proof (intro conjI allI impI)
  have ws: "ws_pairs (strs input)"
    using assms by (auto simp: ws_pairs_def strs_def whitespace_free_def)
  fix it st' fs'
  assume g: "groupBy getsizeof candidates st input fs = Some (Inr (it, st', fs'))"
  let ?ps = "strs input"
  let ?kvs = "case it of FromMemory m \<Rightarrow> group_ref ?ps | FromDisk d \<Rightarrow> read_back (group_ref ?ps)"
  from groupBy_reads[OF g ws] obtain fs'' where e: "exhaust it fs' = Inr (?kvs, fs'')" by blast
  have keys: "map fst ?kvs = map fst (group_ref ?ps)" by (cases it) simp_all
  have s: "sorted_wrt (<) (map fst ?kvs)" unfolding keys by (rule sorted_group_ref)
  have k: "set (map fst ?kvs) = fst ` set input"
    unfolding keys keys_group_ref by (simp add: strs_def image_image)
  have v: "\<forall>e \<in> set ?kvs. snd e =
             (case it of
                FromMemory m \<Rightarrow> map snd (filter (\<lambda>p. fst p = fst e) ?ps)
              | FromDisk d \<Rightarrow> filter (\<lambda>v. v \<noteq> []) (map snd (filter (\<lambda>p. fst p = fst e) ?ps)))"
    by (cases it) (simp_all add: group_ref_values read_back_group_ref_values)
  from e s k v
  show "\<exists>kvs fs''. exhaust it fs' = Inr (kvs, fs'') \<and>
               sorted_wrt (<) (map fst kvs) \<and>
               set (map fst kvs) = fst ` set input \<and>
               (\<forall>e \<in> set kvs. snd e =
                  (case it of
                     FromMemory m \<Rightarrow> map snd (filter (\<lambda>p. fst p = fst e) (strs input))
                   | FromDisk d \<Rightarrow>
                       filter (\<lambda>v. v \<noteq> []) (map snd (filter (\<lambda>p. fst p = fst e) (strs input)))))"
    by blast
next
  fix fs0 :: fsys and ps Rs
  assume a: "list_all2 (\<lambda>p r. files fs0 p = Some (run_text r) \<and> ws_run r) ps Rs \<and>
            (\<forall>r \<in> set Rs. r \<noteq> [])"
  then have 1: "list_all2 (\<lambda>p r. files fs0 p = Some (run_text r) \<and> ws_run r) ps Rs"
    and 2: "\<forall>r \<in> set Rs. r \<noteq> []" by simp_all
  from MergeFileIterator_ws(2)[OF 1 2] obtain h where h: "MergeFileIterator fs0 ps = Inr h" by blast
  have k: "(\<Union>r \<in> set (map read_back Rs). fst ` set r) = (\<Union>r \<in> set Rs. fst ` set r)"
    by (simp add: set_keys_read_back)
  have v: "map (vals_in k) (map read_back Rs) = map (\<lambda>r. filter (\<lambda>v. v \<noteq> []) (vals_in k r)) Rs" for k
    by (simp add: vals_in_read_back)
  have "merge_spec (map read_back Rs) =
          map (\<lambda>k. (k, concat (map (\<lambda>r. filter (\<lambda>v. v \<noteq> []) (vals_in k r)) Rs)))
              (sorted_list_of_set (\<Union>r \<in> set Rs. fst ` set r))"
    unfolding merge_spec_def k v ..
  with merge_ws(2)[OF 1 h] h
  show "\<exists>h. MergeFileIterator fs0 ps = Inr h \<and>
               consume_merge h =
                 Inr (map (\<lambda>k. (k, concat (map (\<lambda>r. filter (\<lambda>v. v \<noteq> []) (vals_in k r)) Rs)))
                        (sorted_list_of_set (\<Union>r \<in> set Rs. fst ` set r)))"
    by simp
qed

theorem emitted_order_witness:
  "(case groupBy example_getsizeof [''ws''] (GroupByStatement (Some 2) (Some 2) None None)
           gappy_input example_fs of
      Some (Inr (it, st', fs')) \<Rightarrow>
        spills st' = 4 \<and> num_merge_stages st' = 1 \<and> num_files st' = 2 \<and>
        (case exhaust it fs' of
           Inl e \<Rightarrow> False
         | Inr (kvs, fs'') \<Rightarrow>
             kvs = [(0, [''z'']), (1, [''x'', ''y'']), (2, []), (3, [''b'', ''a''])] \<and>
             sorted_wrt (<) (map fst kvs) \<and> set (map fst kvs) = fst ` set gappy_input)
    | _ \<Rightarrow> False)"
proof -
  let ?G = "groupBy example_getsizeof [''ws''] (GroupByStatement (Some 2) (Some 2) None None)
              gappy_input example_fs"
  have "(case ?G of Some (Inr (it, st', fs')) \<Rightarrow> True | _ \<Rightarrow> False)" by code_simp
  then obtain it st' fs' where g: "?G = Some (Inr (it, st', fs'))"
    by (auto split: option.splits sum.splits)
  have "(case ?G of Some (Inr (it, st', fs')) \<Rightarrow>
           spills st' = 4 \<and> num_merge_stages st' = 1 \<and> num_files st' = 2
         | _ \<Rightarrow> False)" by code_simp
  with g have s: "spills st' = 4 \<and> num_merge_stages st' = 1 \<and> num_files st' = 2" by simp
  have "(case ?G of Some (Inr (it, st', fs')) \<Rightarrow>
           (case exhaust it fs' of Inl e \<Rightarrow> False
            | Inr (kvs, fs'') \<Rightarrow> kvs = [(0, [''z'']), (1, [''x'', ''y'']), (2, []), (3, [''b'', ''a''])])
         | _ \<Rightarrow> False)" by code_simp
  with g have "(case exhaust it fs' of Inl e \<Rightarrow> False
            | Inr (kvs, fs'') \<Rightarrow> kvs = [(0, [''z'']), (1, [''x'', ''y'']), (2, []), (3, [''b'', ''a''])])"
    by simp
  then obtain kvs fs'' where e: "exhaust it fs' = Inr (kvs, fs'')"
    and k: "kvs = [(0, [''z'']), (1, [''x'', ''y'']), (2, []), (3, [''b'', ''a''])]"
    by (auto split: sum.splits)
  have a: "\<forall>kv \<in> set gappy_input. \<forall>c \<in> set (str_of (snd kv)). \<not> isspace c"
    by code_simp
  from emitted_order[OF a, of example_getsizeof "[''ws'']" "GroupByStatement (Some 2) (Some 2) None None"
      example_fs] g e
  have "sorted_wrt (<) (map fst kvs) \<and> set (map fst kvs) = fst ` set gappy_input" by auto
  with g s e k show ?thesis by simp
qed

end
